theory Spec2Isabelle
  imports Complex_Main "HOL-Library.Char_ord" "HOL-Library.List_Lexorder" "HOL-Library.Sublist"
    "HOL-Library.Multiset"
begin

section \<open>Python strings\<close>

text \<open>
  A Python \<open>str\<close> is a sequence of code points. The program's own literals
  (the sentinels and the message texts, with their accented letters) lie in Latin-1, so a
  string is modelled as a \<^typ>\<open>string\<close> whose characters are the code points 0..255.
  On that range \<open>str.lower\<close>, \<open>str.strip\<close> and the regular-expression class
  \<open>\d\<close> are the functions below; Latin-1 is closed under \<open>lower\<close>.
\<close>

definition code :: "char \<Rightarrow> nat" where
  "code c = of_char c"

definition e_acute :: char where
  "e_acute = char_of (233::nat)"

text \<open>\<open>str.isspace\<close> on one code point below 256.\<close>

definition is_space :: "char \<Rightarrow> bool" where
  "is_space c = (code c \<in> {9, 10, 11, 12, 13, 28, 29, 30, 31, 32, 133, 160})"

text \<open>The class \<open>\d\<close> of \<open>re\<close> on a \<open>str\<close> pattern: the decimal digits.\<close>

definition is_digit :: "char \<Rightarrow> bool" where
  "is_digit c = (48 \<le> code c \<and> code c \<le> 57)"

definition lower_char :: "char \<Rightarrow> char" where
  "lower_char c =
     (if (65 \<le> code c \<and> code c \<le> 90) \<or> (192 \<le> code c \<and> code c \<le> 222 \<and> code c \<noteq> 215)
      then char_of (code c + 32) else c)"

definition lower :: "string \<Rightarrow> string" where
  "lower s = map lower_char s"

text \<open>\<open>s.strip()\<close>: leading and trailing white space removed.\<close>

definition lstrip :: "string \<Rightarrow> string" where
  "lstrip s = dropWhile is_space s"

definition rstrip :: "string \<Rightarrow> string" where
  "rstrip s = rev (dropWhile is_space (rev s))"

definition strip :: "string \<Rightarrow> string" where
  "strip s = rstrip (lstrip s)"

text \<open>
  \<open>s.replace(old, new)\<close>: the occurrences of \<open>old\<close> are replaced from left to right
  without overlap; an empty \<open>old\<close> matches before every character and at the end.
\<close>

function replace_ne :: "string \<Rightarrow> string \<Rightarrow> string \<Rightarrow> string" where
  "replace_ne old new [] = []"
| "replace_ne old new (c # cs) =
     (if old \<noteq> [] \<and> prefix old (c # cs)
      then new @ replace_ne old new (drop (length old) (c # cs))
      else c # replace_ne old new cs)"
  by pat_completeness auto
termination
  by (relation "measure (\<lambda>(old, new, s). length s)") (auto simp: Suc_le_eq)

definition replace :: "string \<Rightarrow> string \<Rightarrow> string \<Rightarrow> string" where
  "replace s old new =
     (if old = [] then new @ concat (map (\<lambda>c. c # new) s) else replace_ne old new s)"

section \<open>data_processor.py: the field cleaning rules\<close>

definition NON_DETECTE :: string where
  "NON_DETECTE = ''Non d'' @ [e_acute] @ ''tect'' @ [e_acute]"

definition ERREUR_ANALYSE :: string where
  "ERREUR_ANALYSE = ''Erreur d'' @ [CHR 0x27] @ ''analyse''"

text \<open>\<open>re.sub(r'[^\d.,]', '', price_str)\<close> keeps the digits, the point and the comma.\<close>

definition clean_price :: "string \<Rightarrow> string" where
  "clean_price price_str =
     (if price_str = NON_DETECTE then price_str
      else let cleaned = filter (\<lambda>c. is_digit c \<or> c = CHR ''.'' \<or> c = CHR '','') price_str
           in if cleaned = [] then NON_DETECTE else cleaned)"

text \<open>
  The dict \<open>replacements\<close> is iterated in insertion order, every entry applied to the
  result of the one before.
\<close>

definition replacements :: "(string \<times> string) list" where
  "replacements =
     [(''litres'', ''L''), (''litre'', ''L''),
      (''millilitres'', ''mL''), (''millilitre'', ''mL''),
      (''grammes'', ''g''), (''gramme'', ''g''),
      (''kilogrammes'', ''kg''), (''kilogramme'', ''kg'')]"

definition clean_volume :: "string \<Rightarrow> string" where
  "clean_volume volume_str =
     (if volume_str = NON_DETECTE then volume_str
      else strip (foldl (\<lambda>s (old, new). replace s old new) (lower volume_str) replacements))"

definition clean_barcode :: "string \<Rightarrow> string" where
  "clean_barcode barcode_str =
     (if barcode_str = NON_DETECTE then barcode_str
      else let cleaned = filter is_digit barcode_str
           in if cleaned = [] then NON_DETECTE else cleaned)"

section \<open>Python values and records\<close>

text \<open>
  The values a record can hold: what \<open>json.loads\<close> produces, and the numbers the
  normalizer adds. A finite float is its rational value. A nested JSON object is an
  association list read with \<^const>\<open>map_of\<close>; a record of the pipeline (a \<open>dict\<close> with
  string keys) is a map.
\<close>

datatype pyval =
    PNone
  | PBool bool
  | PInt int
  | PFloat rat
  | PStr string
  | PList "pyval list"
  | PDict "(string \<times> pyval) list"

type_synonym pdict = "string \<rightharpoonup> pyval"

text \<open>Truth value of a Python object, as \<open>if value\<close> tests it.\<close>

fun truthy :: "pyval \<Rightarrow> bool" where
  "truthy PNone = False"
| "truthy (PBool b) = b"
| "truthy (PInt i) = (i \<noteq> 0)"
| "truthy (PFloat x) = (x \<noteq> 0)"
| "truthy (PStr s) = (s \<noteq> [])"
| "truthy (PList xs) = (xs \<noteq> [])"
| "truthy (PDict kvs) = (kvs \<noteq> [])"

text \<open>The keys of \<open>PRODUCT_SCHEMA\<close> (config/settings.py), in declaration order.\<close>

definition PRODUCT_SCHEMA_keys :: "string list" where
  "PRODUCT_SCHEMA_keys =
     [''nom_produit'', ''description_type'', ''volume'', ''prix_fcfa'',
      ''code_barres_ean'', ''code_article'', ''source_information'']"

section \<open>data_processor.py: DataProcessor\<close>

definition special_values :: "string list" where
  "special_values = [[], ''n/a'', ''na'', ''null'', ''none'', ''?'', ''-'']"

text \<open>The body of the first loop of \<open>_clean_result\<close> for one field and its value.\<close>

definition clean_value :: "string \<Rightarrow> pyval \<Rightarrow> pyval" where
  "clean_value field v =
     (case v of
        PStr s \<Rightarrow>
          (let s' = strip s in
           PStr (if lower s' \<in> set special_values then NON_DETECTE
                 else if field = ''prix_fcfa'' then clean_price s'
                 else if field = ''volume'' then clean_volume s'
                 else if field = ''code_barres_ean'' then clean_barcode s'
                 else s'))
      | _ \<Rightarrow> v)"

definition meta_fields :: "string list" where
  "meta_fields = [''nom_fichier'', ''chemin_fichier'', ''erreur'']"

definition clean_result :: "pdict \<Rightarrow> pdict" where
  "clean_result result =
     (let cleaned =
            foldl (\<lambda>cleaned field.
                     cleaned(field \<mapsto>
                       clean_value field
                         (case result field of None \<Rightarrow> PStr NON_DETECTE | Some v \<Rightarrow> v)))
                  Map.empty PRODUCT_SCHEMA_keys
      in foldl (\<lambda>cleaned meta_field.
                  case result meta_field of
                    Some v \<Rightarrow> cleaned(meta_field \<mapsto> v)
                  | None \<Rightarrow> cleaned)
               cleaned meta_fields)"

text \<open>
  \<open>_calculate_completeness\<close>. The source computes \<open>(complete_fields / total_fields) * 100\<close>
  in floating point; the eight possible values \<open>k / 7 * 100\<close> are compared only with
  0, 80 and 100, from which the rounded values are as far as the exact ones, so the
  score is modelled by its exact rational value.
\<close>

definition field_complete :: "pdict \<Rightarrow> string \<Rightarrow> bool" where
  "field_complete result field =
     (let v = (case result field of None \<Rightarrow> PStr [] | Some v \<Rightarrow> v)
      in truthy v \<and> v \<noteq> PStr NON_DETECTE \<and> v \<noteq> PStr ERREUR_ANALYSE)"

definition calculate_completeness :: "pdict \<Rightarrow> rat" where
  "calculate_completeness result =
     (let total_fields = length PRODUCT_SCHEMA_keys;
          complete_fields = length (filter (field_complete result) PRODUCT_SCHEMA_keys)
      in (of_nat complete_fields / of_nat total_fields) * 100)"

text \<open>
  The body of the loop of \<open>process_results\<close> for the \<open>i\<close>-th raw result; \<open>now i\<close> is
  the formatted \<open>datetime.now()\<close> read at that iteration. No operation of the body
  raises on a dict, so the \<open>except\<close> branch of the source (which would skip the
  record) is never taken and is not a branch of the model. The counters \<open>stats\<close>
  are only logged.
\<close>

definition process_one :: "(int \<Rightarrow> string) \<Rightarrow> int \<Rightarrow> pdict \<Rightarrow> pdict" where
  "process_one now i result =
     (let cleaned_result = clean_result result;
          cleaned_result = cleaned_result(''numero_sequence'' \<mapsto> PInt i);
          cleaned_result = cleaned_result(''date_traitement'' \<mapsto> PStr (now i));
          completeness_score = calculate_completeness cleaned_result;
          cleaned_result = cleaned_result(''score_completude'' \<mapsto> PFloat completeness_score)
      in if cleaned_result ''erreur'' \<noteq> None
         then cleaned_result(''statut'' \<mapsto> PStr ''Erreur'')
         else if completeness_score \<ge> 80
         then cleaned_result(''statut'' \<mapsto> PStr ''Complet'')
         else cleaned_result(''statut'' \<mapsto> PStr ''Partiel''))"

fun process_loop :: "(int \<Rightarrow> string) \<Rightarrow> int \<Rightarrow> pdict list \<Rightarrow> pdict list" where
  "process_loop now i [] = []"
| "process_loop now i (result # rest) = process_one now i result # process_loop now (i + 1) rest"

definition process_results :: "(int \<Rightarrow> string) \<Rightarrow> pdict list \<Rightarrow> pdict list" where
  "process_results now raw_results = process_loop now 1 raw_results"

section \<open>Paths, exceptions and the outside world\<close>

text \<open>
  Every path the pipeline handles is built as \<open>directory / file name\<close> (by
  \<open>iterdir\<close> or by \<open>processed_dir / image_path.name\<close>), so a path is that pair;
  \<open>str(path)\<close> joins the two with the POSIX separator.
\<close>

datatype path = Path (parent: string) (name: string)

definition path_str :: "path \<Rightarrow> string" where
  "path_str p = parent p @ ''/'' @ name p"

text \<open>
  The exceptions the modelled code raises or lets through. \<open>ExternalError\<close> stands
  for whatever the remote call, the transport encoding or the image codec raises.
\<close>

datatype exn =
    ValueError string
  | TypeError
  | RetryError exn
  | ExternalError string
  | FileNotFoundError
  | SameFileError
  | NotADirectoryError
  | ZeroDivisionError

text \<open>
  What lies outside the repository. \<open>generate_content n batch\<close> is the outcome of the
  \<open>n\<close>-th attempt of the run to obtain \<open>response.text\<close> for a batch (lines 77 to 101 of
  gemini_client.py: reading and encoding the files, the remote call, reading the
  text): an exception or the text. \<open>json_loads\<close> is \<open>json.loads\<close>, with \<open>None\<close> for
  \<open>JSONDecodeError\<close>. \<open>exn_text\<close> is \<open>str(e)\<close> for the exceptions whose message is
  written by the interpreter or a library.
\<close>

record world =
  generate_content :: "nat \<Rightarrow> path list \<Rightarrow> exn + string"
  json_loads :: "string \<Rightarrow> pyval option"
  exn_text :: "exn \<Rightarrow> string"

definition str_exn :: "'a world_scheme \<Rightarrow> exn \<Rightarrow> string" where
  "str_exn w e = (case e of ValueError msg \<Rightarrow> msg | _ \<Rightarrow> exn_text w e)"

text \<open>\<open>str(n)\<close> for a natural number.\<close>

function str_nat :: "nat \<Rightarrow> string" where
  "str_nat n = (if n < 10 then [char_of (48 + n)] else str_nat (n div 10) @ [char_of (48 + n mod 10)])"
  by pat_completeness auto
termination
  by (relation "measure id") auto

declare str_nat.simps [simp del]

section \<open>gemini_client.py: GeminiClient\<close>

definition NON_ANALYSE :: string where
  "NON_ANALYSE = ''Non analys'' @ [e_acute]"

definition create_empty_result :: "path \<Rightarrow> pdict" where
  "create_empty_result image_path =
     (let result = foldl (\<lambda>r field. r(field \<mapsto> PStr NON_DETECTE)) Map.empty PRODUCT_SCHEMA_keys
      in result(''nom_fichier'' \<mapsto> PStr (name image_path),
                ''chemin_fichier'' \<mapsto> PStr (path_str image_path),
                ''source_information'' \<mapsto> PStr NON_ANALYSE))"

definition create_error_result :: "path \<Rightarrow> string \<Rightarrow> pdict" where
  "create_error_result image_path error_message =
     (let result = foldl (\<lambda>r field. r(field \<mapsto> PStr ERREUR_ANALYSE)) Map.empty PRODUCT_SCHEMA_keys
      in result(''nom_fichier'' \<mapsto> PStr (name image_path),
                ''chemin_fichier'' \<mapsto> PStr (path_str image_path),
                ''source_information'' \<mapsto> PStr (''Erreur: '' @ error_message),
                ''erreur'' \<mapsto> PStr error_message))"

text \<open>
  \<open>_validate_product_data\<close>: the first loop fills the missing and the null schema
  fields, the second one rewrites the value of every key of the dict.
\<close>

definition validate_product_data :: "pdict \<Rightarrow> pdict" where
  "validate_product_data product =
     (let product =
            foldl (\<lambda>p field. if p field = None \<or> p field = Some PNone
                               then p(field \<mapsto> PStr NON_DETECTE) else p)
                  product PRODUCT_SCHEMA_keys
      in (\<lambda>key. case product key of
                   None \<Rightarrow> None
                 | Some (PStr s) \<Rightarrow> Some (PStr (strip s))
                 | Some PNone \<Rightarrow> Some (PStr NON_DETECTE)
                 | Some v \<Rightarrow> Some v))"

text \<open>\<open>'produits' not in parsed_data\<close>, negated, for each type \<open>json.loads\<close> can return.\<close>

definition has_produits :: "pyval \<Rightarrow> exn + bool" where
  "has_produits parsed_data =
     (case parsed_data of
        PDict kvs \<Rightarrow> Inr (map_of kvs ''produits'' \<noteq> None)
      | PList xs \<Rightarrow> Inr (PStr ''produits'' \<in> set xs)
      | PStr s \<Rightarrow> Inr (sublist ''produits'' s)
      | _ \<Rightarrow> Inl TypeError)"

text \<open>\<open>parsed_data['produits']\<close>, reached only when the key test succeeded.\<close>

definition get_produits :: "pyval \<Rightarrow> exn + pyval" where
  "get_produits parsed_data =
     (case parsed_data of
        PDict kvs \<Rightarrow> (case map_of kvs ''produits'' of Some v \<Rightarrow> Inr v | None \<Rightarrow> Inl TypeError)
      | _ \<Rightarrow> Inl TypeError)"

text \<open>The items \<open>enumerate(products)\<close> walks through.\<close>

definition iter_items :: "pyval \<Rightarrow> exn + pyval list" where
  "iter_items products =
     (case products of
        PList ps \<Rightarrow> Inr ps
      | PStr s \<Rightarrow> Inr (map (\<lambda>c. PStr [c]) s)
      | PDict kvs \<Rightarrow> Inr (map (\<lambda>kv. PStr (fst kv)) kvs)
      | _ \<Rightarrow> Inl TypeError)"

text \<open>
  The loop over the products. Only a dict supports \<open>product['nom_fichier'] = ...\<close>;
  any other item raises \<open>TypeError\<close>, which leaves the loop and the function.
\<close>

fun products_loop :: "path list \<Rightarrow> nat \<Rightarrow> pyval list \<Rightarrow> exn + pdict list" where
  "products_loop image_paths i [] = Inr []"
| "products_loop image_paths i (item # items) =
     (case item of
        PDict kvs \<Rightarrow>
          (let product = map_of kvs;
               product =
                 (if i < length image_paths
                  then product(''nom_fichier'' \<mapsto> PStr (name (image_paths ! i)),
                               ''chemin_fichier'' \<mapsto> PStr (path_str (image_paths ! i)))
                  else product(''nom_fichier'' \<mapsto> PStr (''image_inconnue_'' @ str_nat (i + 1)),
                               ''chemin_fichier'' \<mapsto> PStr []));
               product = validate_product_data product
           in case products_loop image_paths (i + 1) items of
                Inl e \<Rightarrow> Inl e
              | Inr results \<Rightarrow> Inr (product # results))
      | _ \<Rightarrow> Inl TypeError)"

text \<open>The \<open>while\<close> loop that pads the results up to the number of images.\<close>

function pad_results :: "pdict list \<Rightarrow> path list \<Rightarrow> pdict list" where
  "pad_results results image_paths =
     (if length results < length image_paths
      then pad_results (results @ [create_empty_result (image_paths ! length results)]) image_paths
      else results)"
  by pat_completeness auto
termination
  by (relation "measure (\<lambda>(results, image_paths). length image_paths - length results)") auto

declare pad_results.simps [simp del]

text \<open>The \<open>try\<close> block of \<open>_parse_gemini_response\<close> after \<open>json.loads\<close> has returned.\<close>

definition parse_products :: "pyval \<Rightarrow> path list \<Rightarrow> exn + pdict list" where
  "parse_products parsed_data image_paths =
     (case has_produits parsed_data of
        Inl e \<Rightarrow> Inl e
      | Inr False \<Rightarrow>
          Inl (ValueError (''Format de r'' @ [e_acute] @ ''ponse invalide: cl'' @ [e_acute]
                           @ '' '' @ [CHR 0x27] @ ''produits'' @ [CHR 0x27] @ '' manquante''))
      | Inr True \<Rightarrow>
          (case get_produits parsed_data of
             Inl e \<Rightarrow> Inl e
           | Inr products \<Rightarrow>
               (case iter_items products of
                  Inl e \<Rightarrow> Inl e
                | Inr items \<Rightarrow>
                    (case products_loop image_paths 0 items of
                       Inl e \<Rightarrow> Inl e
                     | Inr results \<Rightarrow> Inr (pad_results results image_paths)))))"

definition code_fence :: string where
  "code_fence = replicate 3 (CHR 0x60)"

definition strip_fences :: "string \<Rightarrow> string" where
  "strip_fences response_text =
     (let cleaned_response = strip response_text;
          cleaned_response =
            (if prefix (code_fence @ ''json'') cleaned_response
             then drop 7 cleaned_response else cleaned_response);
          cleaned_response =
            (if suffix code_fence cleaned_response
             then take (length cleaned_response - 3) cleaned_response else cleaned_response)
      in strip cleaned_response)"

definition parse_gemini_response :: "'a world_scheme \<Rightarrow> string \<Rightarrow> path list \<Rightarrow> pdict list" where
  "parse_gemini_response w response_text image_paths =
     (case json_loads w (strip_fences response_text) of
        None \<Rightarrow> map (\<lambda>img_path. create_error_result img_path ''Erreur de parsing JSON'') image_paths
      | Some parsed_data \<Rightarrow>
          (case parse_products parsed_data image_paths of
             Inl e \<Rightarrow> map (\<lambda>img_path. create_error_result img_path (str_exn w e)) image_paths
           | Inr results \<Rightarrow> results))"

text \<open>One execution of the body of \<open>_analyze_batch\<close>, as the \<open>n\<close>-th attempt of the run.\<close>

definition analyze_batch_once :: "'a world_scheme \<Rightarrow> nat \<Rightarrow> path list \<Rightarrow> exn + pdict list" where
  "analyze_batch_once w n image_paths =
     (case generate_content w n image_paths of
        Inl e \<Rightarrow> Inl e
      | Inr text \<Rightarrow>
          if text = []
          then Inl (ValueError (''R'' @ [e_acute] @ ''ponse vide de l'' @ [CHR 0x27] @ ''API Gemini''))
          else Inr (parse_gemini_response w text image_paths))"

text \<open>
  The decorator \<open>@retry(stop=stop_after_attempt(3), ...)\<close>: the body is run again
  after an exception until it returns or the third attempt has failed, and then
  \<open>RetryError\<close> is raised. The result carries the number of the next attempt of the run.
\<close>

function retry_loop ::
  "'a world_scheme \<Rightarrow> nat \<Rightarrow> nat \<Rightarrow> path list \<Rightarrow> (exn + pdict list) \<times> nat" where
  "retry_loop w attempt_number n image_paths =
     (case analyze_batch_once w n image_paths of
        Inr results \<Rightarrow> (Inr results, n + 1)
      | Inl e \<Rightarrow>
          if attempt_number \<ge> 3 then (Inl (RetryError e), n + 1)
          else retry_loop w (attempt_number + 1) (n + 1) image_paths)"
  by pat_completeness auto
termination
  by (relation "measure (\<lambda>(w, attempt_number, n, image_paths). 3 - attempt_number)") auto

declare retry_loop.simps [simp del]

definition analyze_batch :: "'a world_scheme \<Rightarrow> nat \<Rightarrow> path list \<Rightarrow> (exn + pdict list) \<times> nat" where
  "analyze_batch w n image_paths = retry_loop w 1 n image_paths"

text \<open>The body of the loop of \<open>analyze_images\<close> for one batch: the \<open>try\<close> and its \<open>except\<close>.\<close>

definition analyze_images_batch :: "'a world_scheme \<Rightarrow> nat \<Rightarrow> path list \<Rightarrow> pdict list \<times> nat" where
  "analyze_images_batch w n batch =
     (case analyze_batch w n batch of
        (Inr batch_results, n') \<Rightarrow> (batch_results, n')
      | (Inl e, n') \<Rightarrow> (map (\<lambda>image_path. create_error_result image_path (str_exn w e)) batch, n'))"

text \<open>
  \<open>for i in range(0, total_images, batch_size): batch = image_paths[i:i + batch_size]\<close>
  for a positive step: the batch is the first \<open>batch_size\<close> paths of what remains.
\<close>

function analyze_images_loop :: "'a world_scheme \<Rightarrow> nat \<Rightarrow> nat \<Rightarrow> path list \<Rightarrow> pdict list" where
  "analyze_images_loop w batch_size n image_paths =
     (if batch_size = 0 \<or> image_paths = [] then []
      else fst (analyze_images_batch w n (take batch_size image_paths))
           @ analyze_images_loop w batch_size
               (snd (analyze_images_batch w n (take batch_size image_paths)))
               (drop batch_size image_paths))"
  by pat_completeness auto
termination
  by (relation "measure (\<lambda>(w, batch_size, n, image_paths). length image_paths)") auto

declare analyze_images_loop.simps [simp del]

text \<open>
  \<open>analyze_images\<close> with \<open>self.batch_size\<close> as a parameter: \<open>range\<close> raises on a zero
  step and is empty for a negative one.
\<close>

definition analyze_images :: "'a world_scheme \<Rightarrow> int \<Rightarrow> path list \<Rightarrow> exn + pdict list" where
  "analyze_images w batch_size image_paths =
     (if batch_size = 0 then Inl (ValueError ''range() arg 3 must not be zero'')
      else if batch_size < 0 then Inr []
      else Inr (analyze_images_loop w (nat batch_size) 0 image_paths))"

section \<open>Logging and the file system\<close>

datatype level = DEBUG | INFO | WARNING | ERROR

text \<open>
  One constructor for each logger call of the modelled functions, carrying the value
  the message interpolates.
\<close>

datatype message =
    Input_dir_missing string
  | Valid_image_found string
  | File_ignored string
  | Valid_images_count nat
  | Initial_size rat
  | Copied_unchanged string
  | Final_size rat
  | Compression_succeeded int
  | Cannot_reduce string
  | Compression_error string

text \<open>What \<open>input_dir\<close> is on disk; a directory lists its entries as (name, \<open>is_file()\<close>).\<close>

datatype node = Missing | File | Dir "(string \<times> bool) list"

type_synonym bytes = "char list"

text \<open>
  The state the image processor works on: the content of the regular files, the log
  records emitted so far, and the qualities \<open>img.save\<close> has been called with.
\<close>

record io =
  files :: "path \<rightharpoonup> bytes"
  logged :: "(level \<times> message) list"
  saved :: "int list"

definition log_record :: "level \<Rightarrow> message \<Rightarrow> io \<Rightarrow> io" where
  "log_record lvl msg s = s\<lparr>logged := logged s @ [(lvl, msg)]\<rparr>"

section \<open>file_manager.py: FileManager\<close>

definition SUPPORTED_IMAGE_FORMATS :: "string list" where
  "SUPPORTED_IMAGE_FORMATS = [''.jpg'', ''.jpeg'', ''.png'', ''.webp'', ''.heic'', ''.heif'']"

text \<open>\<open>name.rfind(c)\<close>, with \<open>None\<close> for -1.\<close>

fun rfind :: "char \<Rightarrow> string \<Rightarrow> nat option" where
  "rfind c [] = None"
| "rfind c (x # xs) =
     (case rfind c xs of
        Some i \<Rightarrow> Some (i + 1)
      | None \<Rightarrow> if x = c then Some 0 else None)"

text \<open>\<open>PurePath.suffix\<close>: the last dot and what follows, unless that dot is first or last.\<close>

definition path_suffix :: "path \<Rightarrow> string" where
  "path_suffix p =
     (case rfind (CHR ''.'') (name p) of
        Some i \<Rightarrow> if 0 < i \<and> i < length (name p) - 1 then drop i (name p) else []
      | None \<Rightarrow> [])"

definition is_valid_image :: "path \<Rightarrow> bool" where
  "is_valid_image file_path = (lower (path_suffix file_path) \<in> set SUPPORTED_IMAGE_FORMATS)"

text \<open>The body of the loop of \<open>get_input_images\<close> for one directory entry.\<close>

definition scan_entry ::
  "string \<Rightarrow> path list \<times> (level \<times> message) list \<Rightarrow> string \<times> bool
   \<Rightarrow> path list \<times> (level \<times> message) list" where
  "scan_entry input_dir acc entry =
     (let file_path = Path input_dir (fst entry); is_file = snd entry
      in if is_file \<and> is_valid_image file_path
         then (fst acc @ [file_path], snd acc @ [(DEBUG, Valid_image_found (name file_path))])
         else if is_file
         then (fst acc, snd acc @ [(WARNING, File_ignored (name file_path))])
         else acc)"

text \<open>
  \<open>get_input_images\<close>. The paths of one directory differ only in their last
  component, so \<open>sorted\<close>, which compares paths component by component, orders them
  by name, the names compared code point by code point. \<open>iterdir\<close> raises on a path
  that is not a directory.
\<close>

definition get_input_images ::
  "string \<Rightarrow> node \<Rightarrow> (exn + path list) \<times> (level \<times> message) list" where
  "get_input_images input_dir nd =
     (case nd of
        Missing \<Rightarrow> (Inr [], [(ERROR, Input_dir_missing input_dir)])
      | File \<Rightarrow> (Inl NotADirectoryError, [])
      | Dir entries \<Rightarrow>
          (let acc = foldl (scan_entry input_dir) ([], []) entries
           in (Inr (sort_key name (fst acc)),
               snd acc @ [(INFO, Valid_images_count (length (fst acc)))])))"

text \<open>
  \<open>get_file_size_mb\<close>. Dividing by \<open>1024 * 1024\<close> is exact in binary floating point, so
  the result and its comparison with the ceiling are those of the rational numbers.
\<close>

definition get_file_size_mb :: "(path \<rightharpoonup> bytes) \<Rightarrow> path \<Rightarrow> rat" where
  "get_file_size_mb fs file_path =
     (case fs file_path of
        None \<Rightarrow> 0
      | Some content \<Rightarrow> of_nat (length content) / (1024 * 1024))"

section \<open>image_processor.py: ImageProcessor\<close>

text \<open>
  The image library. \<open>prepare\<close> is lines 94 to 110 of \<open>_compress_image\<close> (opening the
  file, transposing, flattening to RGB, resizing); \<open>save img quality\<close> is the JPEG
  encoding \<open>img.save\<close> writes.
\<close>

record 'img codec =
  prepare :: "bytes \<Rightarrow> exn + 'img"
  save :: "'img \<Rightarrow> int \<Rightarrow> exn + bytes"

text \<open>
  \<open>shutil.copy2\<close> on regular files. Its test for source and destination being the
  same file answers no when the source cannot be found (the \<open>OSError\<close> of
  \<open>os.path.samefile\<close> is caught), and opening the source then raises; it raises
  \<open>SameFileError\<close> only for an existing file.
\<close>

definition copy2 :: "(path \<rightharpoonup> bytes) \<Rightarrow> path \<Rightarrow> path \<Rightarrow> exn + (path \<rightharpoonup> bytes)" where
  "copy2 fs src dst =
     (case fs src of
        None \<Rightarrow> Inl FileNotFoundError
      | Some content \<Rightarrow>
          if src = dst then Inl SameFileError else Inr (fs(dst \<mapsto> content)))"

text \<open>The loop \<open>for attempt in range(5)\<close> of \<open>_compress_image\<close>, from \<open>attempt\<close> on.\<close>

function compress_loop ::
  "('img, 'c) codec_scheme \<Rightarrow> rat \<Rightarrow> 'img \<Rightarrow> path \<Rightarrow> path \<Rightarrow> nat \<Rightarrow> int \<Rightarrow> io \<Rightarrow> (exn + unit) \<times> io" where
  "compress_loop cdc max_mb img input_path temp_path attempt quality s =
     (if attempt \<ge> 5 then (Inr (), s)
      else case save cdc img quality of
             Inl e \<Rightarrow> (Inl e, s\<lparr>saved := saved s @ [quality]\<rparr>)
           | Inr encoded \<Rightarrow>
               (let s = s\<lparr>saved := saved s @ [quality], files := (files s)(temp_path \<mapsto> encoded)\<rparr>;
                    current_size = get_file_size_mb (files s) temp_path
                in if current_size \<le> max_mb
                   then (Inr (), log_record DEBUG (Compression_succeeded quality) s)
                   else compress_loop cdc max_mb img input_path temp_path (attempt + 1)
                          (max 20 (quality - 15))
                          (if attempt = 4 then log_record WARNING (Cannot_reduce (name input_path)) s
                           else s)))"
  by pat_completeness auto
termination
  by (relation "measure (\<lambda>(cdc, max_mb, img, input_path, temp_path, attempt, quality, s). 5 - attempt)")
     auto

declare compress_loop.simps [simp del]

definition compress_image ::
  "('img, 'c) codec_scheme \<Rightarrow> rat \<Rightarrow> int \<Rightarrow> path \<Rightarrow> path \<Rightarrow> io \<Rightarrow> (exn + path) \<times> io" where
  "compress_image cdc max_mb compression_quality input_path output_path s =
     (let outcome =
            (case files s input_path of
               None \<Rightarrow> (Inl FileNotFoundError, s)
             | Some content \<Rightarrow>
                 (case prepare cdc content of
                    Inl e \<Rightarrow> (Inl e, s)
                  | Inr img \<Rightarrow>
                      compress_loop cdc max_mb img input_path output_path 0 compression_quality s))
      in case outcome of
           (Inl e, s') \<Rightarrow> (Inl e, log_record ERROR (Compression_error (name input_path)) s')
         | (Inr _, s') \<Rightarrow> (Inr output_path, s'))"

text \<open>The branch of \<open>_process_single_image\<close> for an image within the limit.\<close>

definition copy_unchanged :: "path \<Rightarrow> path \<Rightarrow> io \<Rightarrow> (exn + path) \<times> io" where
  "copy_unchanged image_path output_path s =
     (case copy2 (files s) image_path output_path of
        Inl e \<Rightarrow> (Inl e, s)
      | Inr fs \<Rightarrow> (Inr output_path, log_record DEBUG (Copied_unchanged (name image_path)) (s\<lparr>files := fs\<rparr>)))"

text \<open>
  \<open>_process_single_image\<close>, with \<open>MAX_IMAGE_SIZE_MB\<close>, \<open>self.compression_quality\<close> and
  \<open>self.processed_dir\<close> as parameters. The message of the last \<open>debug\<close> call divides
  by the initial size.
\<close>

definition process_single_image ::
  "('img, 'c) codec_scheme \<Rightarrow> rat \<Rightarrow> int \<Rightarrow> string \<Rightarrow> path \<Rightarrow> io
   \<Rightarrow> (exn + path) \<times> io" where
  "process_single_image cdc max_mb compression_quality processed_dir image_path s =
     (let output_path = Path processed_dir (name image_path);
          initial_size = get_file_size_mb (files s) image_path;
          s = log_record DEBUG (Initial_size initial_size) s
      in if initial_size \<le> max_mb
         then copy_unchanged image_path output_path s
         else (case compress_image cdc max_mb compression_quality image_path output_path s of
                 (Inl e, s') \<Rightarrow> (Inl e, s')
               | (Inr compressed_path, s') \<Rightarrow>
                   (let final_size = get_file_size_mb (files s') compressed_path
                    in if initial_size = 0 then (Inl ZeroDivisionError, s')
                       else (Inr compressed_path, log_record DEBUG (Final_size final_size) s'))))"

section \<open>Auxiliary notions for the proofs\<close>

text \<open>The characters the price rule keeps.\<close>

definition price_char :: "char \<Rightarrow> bool" where
  "price_char c = (is_digit c \<or> c = CHR ''.'' \<or> c = CHR '','')"

text \<open>A list of JSON values all of which are objects.\<close>

definition all_objects :: "pyval list \<Rightarrow> bool" where
  "all_objects items = list_all (\<lambda>item. case item of PDict kvs \<Rightarrow> True | _ \<Rightarrow> False) items"

text \<open>
  The products a response returns: the array under \<open>produits\<close> when the response
  parses to an object that has one.
\<close>

definition products_of :: "'a world_scheme \<Rightarrow> string \<Rightarrow> pyval list option" where
  "products_of w response_text =
     (case json_loads w (strip_fences response_text) of
        Some (PDict kvs) \<Rightarrow>
          (case map_of kvs ''produits'' of Some (PList ps) \<Rightarrow> Some ps | _ \<Rightarrow> None)
      | _ \<Rightarrow> None)"

definition products_returned :: "'a world_scheme \<Rightarrow> string \<Rightarrow> nat" where
  "products_returned w response_text =
     (case products_of w response_text of Some ps \<Rightarrow> length ps | None \<Rightarrow> 0)"

text \<open>
  A record refers to an image when its \<open>nom_fichier\<close> is the image's file name, up to
  the white space \<open>_validate_product_data\<close> trims from every string of a product.
\<close>

definition refers_to :: "pdict \<Rightarrow> path \<Rightarrow> bool" where
  "refers_to r p =
     (case r ''nom_fichier'' of
        Some (PStr s) \<Rightarrow> strip s = strip (name p)
      | _ \<Rightarrow> False)"

text \<open>The log records one directory entry gives rise to.\<close>

definition entry_log :: "string \<Rightarrow> string \<times> bool \<Rightarrow> (level \<times> message) list" where
  "entry_log input_dir entry =
     (if snd entry \<and> is_valid_image (Path input_dir (fst entry))
      then [(DEBUG, Valid_image_found (fst entry))]
      else if snd entry then [(WARNING, File_ignored (fst entry))] else [])"

text \<open>The entries of a directory that are files with a supported extension.\<close>

definition valid_entries :: "string \<Rightarrow> (string \<times> bool) list \<Rightarrow> (string \<times> bool) list" where
  "valid_entries input_dir entries =
     filter (\<lambda>entry. snd entry \<and> is_valid_image (Path input_dir (fst entry))) entries"

text \<open>
  The filter of the gatekeeper in the words of the specification, to be compared with
  \<^const>\<open>is_valid_image\<close>: the extension of a file name is what follows its last dot,
  provided something precedes that dot, and it is supported when, lowercased, it is one
  of the six of the specification.
\<close>

definition spec_extensions :: "string list" where
  "spec_extensions = [''jpg'', ''jpeg'', ''png'', ''webp'', ''heic'', ''heif'']"

definition extension_of :: "string \<Rightarrow> string" where
  "extension_of file_name = rev (takeWhile (\<lambda>c. c \<noteq> CHR ''.'') (rev file_name))"

definition spec_supported :: "string \<Rightarrow> bool" where
  "spec_supported file_name =
     (CHR ''.'' \<in> set file_name \<and>
      length (extension_of file_name) + 1 < length file_name \<and>
      lower (extension_of file_name) \<in> set spec_extensions)"

text \<open>An encoding at the given quality exists and is within the size limit.\<close>

definition fits :: "('img, 'c) codec_scheme \<Rightarrow> rat \<Rightarrow> 'img \<Rightarrow> int \<Rightarrow> bool" where
  "fits cdc max_mb img quality =
     (case save cdc img quality of
        Inr encoded \<Rightarrow> of_nat (length encoded) / (1024 * 1024) \<le> max_mb
      | Inl e \<Rightarrow> False)"

text \<open>Each quality of the list is the one before lowered by 15, but not below 20.\<close>

fun quality_steps :: "int list \<Rightarrow> bool" where
  "quality_steps (q # q' # qs) = (q' = max 20 (q - 15) \<and> quality_steps (q' # qs))"
| "quality_steps qs = True"

section \<open>Example inputs\<close>

definition example_clock :: "int \<Rightarrow> string" where
  "example_clock i = ''2026-01-01 00:00:00''"

text \<open>A remote model that is unreachable: every attempt raises.\<close>

definition failing_world :: world where
  "failing_world =
     \<lparr>generate_content = (\<lambda>n batch. Inl (ExternalError ''timeout'')),
      json_loads = (\<lambda>s. None),
      exn_text = (\<lambda>e. ''RetryError'')\<rparr>"

text \<open>A remote model that answers every request with the same two products.\<close>

definition two_product_world :: world where
  "two_product_world =
     \<lparr>generate_content = (\<lambda>n batch. Inr ''two products''),
      json_loads = (\<lambda>s. Some (PDict [(''produits'',
         PList [PDict [(''nom_produit'', PStr ''Lait ''), (''volume'', PStr ''1 litre'')],
                PDict [(''nom_produit'', PStr ''Riz''), (''prix_fcfa'', PNone)]])])),
      exn_text = (\<lambda>e. ''error'')\<rparr>"

text \<open>A remote model that answers every request for at least one image with one product.\<close>

definition one_product_world :: world where
  "one_product_world =
     \<lparr>generate_content =
        (\<lambda>n batch. if batch = [] then Inl (ExternalError ''no image'') else Inr ''one product''),
      json_loads = (\<lambda>s. Some (PDict [(''produits'',
         PList [PDict [(''nom_produit'', PStr ''Lait''), (''volume'', PStr ''1 litre'')]])])),
      exn_text = (\<lambda>e. ''error'')\<rparr>"

definition example_images :: "path list" where
  "example_images = [Path ''input'' ''a.jpg'', Path ''input'' ''b.png'', Path ''input'' ''c.webp'']"

definition example_entries :: "(string \<times> bool) list" where
  "example_entries =
     [(''b.JPG'', True), (''a.png'', True), (''notes.txt'', True), (''sub.jpg'', False),
      (''.jpg'', True), (''Z.heic'', True)]"

text \<open>A codec whose encoding at quality \<open>q\<close> is \<open>q\<close> bytes long, for an image of any content.\<close>

definition example_codec :: "bytes codec" where
  "example_codec =
     \<lparr>prepare = (\<lambda>content. Inr content),
      save = (\<lambda>img quality. Inr (replicate (nat quality) (CHR ''x'')))\<rparr>"

definition example_io :: io where
  "example_io =
     \<lparr>files = [Path ''input'' ''a.jpg'' \<mapsto> replicate 100 (CHR ''y'')], logged = [], saved = []\<rparr>"

section \<open>Facts about the string operations\<close>

lemma rstrip_prefix: "prefix (rstrip s) s"
proof -
  have "s = rev (dropWhile is_space (rev s)) @ rev (takeWhile is_space (rev s))"
    by (metis rev_append rev_rev_ident takeWhile_dropWhile_id)
  then show ?thesis unfolding rstrip_def by (metis prefixI)
qed

lemma rstrip_last: "rstrip s \<noteq> [] \<Longrightarrow> \<not> is_space (last (rstrip s))"
  unfolding rstrip_def by (simp add: last_rev hd_dropWhile)

lemma lstrip_hd: "lstrip s \<noteq> [] \<Longrightarrow> \<not> is_space (hd (lstrip s))"
  unfolding lstrip_def by (simp add: hd_dropWhile)

lemma strip_ends:
  "strip s \<noteq> [] \<Longrightarrow> \<not> is_space (hd (strip s)) \<and> \<not> is_space (last (strip s))"
proof -
  assume ne: "strip s \<noteq> []"
  have p: "prefix (strip s) (lstrip s)" unfolding strip_def by (rule rstrip_prefix)
  then have "lstrip s \<noteq> []" using ne by auto
  moreover have "hd (strip s) = hd (lstrip s)" using p ne by (auto simp: prefix_def)
  ultimately show ?thesis using ne lstrip_hd rstrip_last unfolding strip_def by metis
qed

lemma strip_fixed:
  "s = [] \<or> (\<not> is_space (hd s) \<and> \<not> is_space (last s)) \<Longrightarrow> strip s = s"
proof (cases "s = []")
  case True then show ?thesis by (simp add: strip_def lstrip_def rstrip_def)
next
  case False
  assume "s = [] \<or> (\<not> is_space (hd s) \<and> \<not> is_space (last s))"
  with False have h: "\<not> is_space (hd s)" and l: "\<not> is_space (last s)" by auto
  from False h have 1: "lstrip s = s" unfolding lstrip_def by (cases s) auto
  from False l have "dropWhile is_space (rev s) = rev s"
    by (cases "rev s") (auto simp: last_rev[symmetric] hd_rev)
  then show ?thesis unfolding strip_def rstrip_def 1 by simp
qed

lemma strip_idem: "strip (strip s) = strip s"
  using strip_ends strip_fixed by blast

section \<open>The cleaning rules\<close>

lemma foldl_upd_apply:
  "foldl (\<lambda>c f. c(f \<mapsto> g f)) m ks k = (if k \<in> set ks then Some (g k) else m k)"
  by (induction ks arbitrary: m) auto

lemma foldl_copy_apply:
  "foldl (\<lambda>c f. case r f of Some v \<Rightarrow> c(f \<mapsto> v) | None \<Rightarrow> c) m ks k =
     (if k \<in> set ks \<and> r k \<noteq> None then r k else m k)"
  by (induction ks arbitrary: m) (auto split: option.splits)

lemma clean_result_apply:
  "clean_result r k =
     (if k \<in> set meta_fields \<and> r k \<noteq> None then r k
      else if k \<in> set PRODUCT_SCHEMA_keys
      then Some (clean_value k (case r k of None \<Rightarrow> PStr NON_DETECTE | Some v \<Rightarrow> v))
      else None)"
  unfolding clean_result_def Let_def foldl_copy_apply foldl_upd_apply by simp

lemma schema_not_meta: "k \<in> set PRODUCT_SCHEMA_keys \<Longrightarrow> k \<notin> set meta_fields"
  by (auto simp: PRODUCT_SCHEMA_keys_def meta_fields_def)

lemma clean_result_schema:
  "k \<in> set PRODUCT_SCHEMA_keys \<Longrightarrow>
   clean_result r k = Some (clean_value k (case r k of None \<Rightarrow> PStr NON_DETECTE | Some v \<Rightarrow> v))"
  by (simp add: clean_result_apply schema_not_meta)

lemma clean_result_meta:
  "k \<in> set meta_fields \<Longrightarrow> clean_result r k = r k"
  using schema_not_meta by (auto simp: clean_result_apply)

lemma clean_result_other:
  "k \<notin> set PRODUCT_SCHEMA_keys \<Longrightarrow> k \<notin> set meta_fields \<Longrightarrow> clean_result r k = None"
  by (simp add: clean_result_apply)

lemma strip_NON_DETECTE: "strip NON_DETECTE = NON_DETECTE"
  by code_simp

lemma lower_NON_DETECTE: "lower NON_DETECTE \<notin> set special_values"
  by code_simp

lemma is_digit_price_char: "is_digit c \<Longrightarrow> price_char c"
  by (simp add: price_char_def)

lemma price_char_not_space: "price_char c \<Longrightarrow> \<not> is_space c"
  by (auto simp: price_char_def is_digit_def is_space_def code_def)

lemma price_char_lower: "price_char c \<Longrightarrow> lower_char c = c"
  by (auto simp: price_char_def is_digit_def lower_char_def code_def)

lemma price_chars_strip:
  assumes "\<forall>x\<in>set c. price_char x"
  shows "strip c = c"
proof (rule strip_fixed, cases "c = []")
  case False
  then have "hd c \<in> set c" "last c \<in> set c" by simp_all
  with assms show "c = [] \<or> \<not> is_space (hd c) \<and> \<not> is_space (last c)"
    using price_char_not_space by blast
qed simp

lemma price_chars_lower:
  assumes "\<forall>x\<in>set c. price_char x"
  shows "lower c = c"
  using assms unfolding lower_def by (induction c) (auto simp: price_char_lower)

lemma price_chars_not_special:
  assumes "\<forall>x\<in>set c. price_char x" and "c \<noteq> []"
  shows "c \<notin> set special_values"
  using assms by (auto simp: special_values_def price_char_def is_digit_def code_def)

lemma price_chars_not_sentinel:
  assumes "\<forall>x\<in>set c. price_char x"
  shows "c \<noteq> NON_DETECTE"
  using assms by (auto simp: NON_DETECTE_def price_char_def is_digit_def code_def)

lemma clean_value_sentinel: "clean_value field (PStr NON_DETECTE) = PStr NON_DETECTE"
  using lower_NON_DETECTE
  by (simp add: clean_value_def strip_NON_DETECTE clean_price_def clean_volume_def clean_barcode_def)

lemma clean_value_price_chars:
  assumes "\<forall>x\<in>set c. price_char x" and "c \<noteq> []"
  shows "clean_value ''prix_fcfa'' (PStr c) = PStr c"
proof -
  have "filter (\<lambda>c. is_digit c \<or> c = CHR ''.'' \<or> c = CHR '','') c = c"
    using assms(1) by (simp add: price_char_def)
  then show ?thesis
    using assms price_chars_not_special[OF assms] price_chars_not_sentinel[OF assms(1)]
    by (simp add: clean_value_def price_chars_strip price_chars_lower clean_price_def Let_def)
qed

lemma clean_value_digits:
  assumes "\<forall>x\<in>set c. is_digit x" and "c \<noteq> []"
  shows "clean_value ''code_barres_ean'' (PStr c) = PStr c"
proof -
  have pc: "\<forall>x\<in>set c. price_char x" using assms(1) is_digit_price_char by blast
  have "filter is_digit c = c" using assms(1) by simp
  then show ?thesis
    using assms price_chars_not_special[OF pc assms(2)] price_chars_not_sentinel[OF pc]
    by (simp add: clean_value_def price_chars_strip[OF pc] price_chars_lower[OF pc]
          clean_barcode_def Let_def)
qed

lemma clean_value_plain:
  assumes "field \<noteq> ''prix_fcfa''" "field \<noteq> ''volume''" "field \<noteq> ''code_barres_ean''"
    and "lower (strip s) \<notin> set special_values"
  shows "clean_value field (PStr (strip s)) = PStr (strip s)"
  using assms by (simp add: clean_value_def strip_idem)

lemma clean_value_idem:
  assumes "field \<noteq> ''volume''"
  shows "clean_value field (clean_value field v) = clean_value field v"
proof (cases v)
  case (PStr s)
  show ?thesis
  proof (cases "lower (strip s) \<in> set special_values")
    case True
    then have "clean_value field v = PStr NON_DETECTE" by (simp add: PStr clean_value_def)
    then show ?thesis by (simp add: clean_value_sentinel)
  next
    case ns: False
    consider (price) "field = ''prix_fcfa''" | (barcode) "field = ''code_barres_ean''"
      | (plain) "field \<noteq> ''prix_fcfa''" "field \<noteq> ''code_barres_ean''" by blast
    then show ?thesis
    proof cases
      case price
      let ?c = "filter (\<lambda>c. is_digit c \<or> c = CHR ''.'' \<or> c = CHR '','') (strip s)"
      have v: "clean_value field v = PStr (clean_price (strip s))"
        using ns price by (simp add: PStr clean_value_def)
      show ?thesis
      proof (cases "strip s = NON_DETECTE \<or> ?c = []")
        case True
        then have "clean_price (strip s) = NON_DETECTE" by (auto simp: clean_price_def)
        then show ?thesis by (simp add: v clean_value_sentinel)
      next
        case False
        then have "clean_price (strip s) = ?c" by (simp add: clean_price_def)
        then have v': "clean_value field v = PStr ?c" using v by simp
        have "\<forall>x\<in>set ?c. price_char x" by (simp add: price_char_def)
        then have "clean_value field (PStr ?c) = PStr ?c"
          using False clean_value_price_chars[of ?c] price by simp
        then show ?thesis by (simp only: v')
      qed
    next
      case barcode
      let ?c = "filter is_digit (strip s)"
      have v: "clean_value field v = PStr (clean_barcode (strip s))"
        using ns barcode by (simp add: PStr clean_value_def)
      show ?thesis
      proof (cases "strip s = NON_DETECTE \<or> ?c = []")
        case True
        then have "clean_barcode (strip s) = NON_DETECTE" by (auto simp: clean_barcode_def)
        then show ?thesis by (simp add: v clean_value_sentinel)
      next
        case False
        then have "clean_barcode (strip s) = ?c" by (simp add: clean_barcode_def)
        then have v': "clean_value field v = PStr ?c" using v by simp
        have "\<forall>x\<in>set ?c. is_digit x" by simp
        then have "clean_value field (PStr ?c) = PStr ?c"
          using False clean_value_digits[of ?c] barcode by simp
        then show ?thesis by (simp only: v')
      qed
    next
      case plain
      then have "clean_value field v = PStr (strip s)"
        using ns assms by (simp add: PStr clean_value_def)
      then show ?thesis using clean_value_plain[OF plain(1) assms plain(2) ns] by simp
    qed
  qed
qed (simp_all add: clean_value_def)

lemma clean_result_idem_field:
  assumes "k \<noteq> ''volume''"
  shows "clean_result (clean_result r) k = clean_result r k"
proof -
  consider (meta) "k \<in> set meta_fields" | (schema) "k \<in> set PRODUCT_SCHEMA_keys"
    | (other) "k \<notin> set meta_fields" "k \<notin> set PRODUCT_SCHEMA_keys" by blast
  then show ?thesis
  proof cases
    case meta then show ?thesis by (simp add: clean_result_meta)
  next
    case schema
    then show ?thesis using assms by (simp add: clean_result_schema clean_value_idem)
  next
    case other then show ?thesis by (simp add: clean_result_other)
  qed
qed

section \<open>Completeness score and status\<close>

lemma calculate_completeness_cong:
  assumes "\<forall>k\<in>set PRODUCT_SCHEMA_keys. r k = r' k"
  shows "calculate_completeness r = calculate_completeness r'"
proof -
  have "filter (field_complete r) PRODUCT_SCHEMA_keys = filter (field_complete r') PRODUCT_SCHEMA_keys"
    using assms by (intro filter_cong) (auto simp: field_complete_def)
  then show ?thesis by (simp add: calculate_completeness_def)
qed

lemma calculate_completeness_range:
  "0 \<le> calculate_completeness r \<and> calculate_completeness r \<le> 100"
proof -
  have "length (filter (field_complete r) PRODUCT_SCHEMA_keys) \<le> length PRODUCT_SCHEMA_keys"
    by (rule length_filter_le)
  moreover have "length PRODUCT_SCHEMA_keys = 7" by (simp add: PRODUCT_SCHEMA_keys_def)
  ultimately show ?thesis by (simp add: calculate_completeness_def Let_def)
qed

lemma process_one_score:
  "process_one now i raw ''score_completude'' = Some (PFloat (calculate_completeness (clean_result raw)))"
proof -
  have "calculate_completeness
          ((clean_result raw)(''numero_sequence'' \<mapsto> PInt i, ''date_traitement'' \<mapsto> PStr (now i)))
        = calculate_completeness (clean_result raw)"
    by (rule calculate_completeness_cong) (auto simp: PRODUCT_SCHEMA_keys_def)
  then show ?thesis by (simp add: process_one_def Let_def)
qed

lemma process_one_erreur:
  "process_one now i raw ''erreur'' = clean_result raw ''erreur''"
  by (simp add: process_one_def Let_def)

lemma process_one_statut:
  "process_one now i raw ''statut'' =
     Some (PStr (if clean_result raw ''erreur'' \<noteq> None then ''Erreur''
                 else if 80 \<le> calculate_completeness (clean_result raw) then ''Complet''
                 else ''Partiel''))"
proof -
  have "calculate_completeness
          ((clean_result raw)(''numero_sequence'' \<mapsto> PInt i, ''date_traitement'' \<mapsto> PStr (now i)))
        = calculate_completeness (clean_result raw)"
    by (rule calculate_completeness_cong) (auto simp: PRODUCT_SCHEMA_keys_def)
  then show ?thesis by (simp add: process_one_def Let_def)
qed

lemma process_loop_length: "length (process_loop now i raws) = length raws"
  by (induction raws arbitrary: i) auto

lemma process_loop_nth:
  "n < length raws \<Longrightarrow> process_loop now i raws ! n = process_one now (i + int n) (raws ! n)"
proof (induction raws arbitrary: i n)
  case Nil then show ?case by simp
next
  case (Cons r rs)
  show ?case
  proof (cases n)
    case 0 then show ?thesis by simp
  next
    case (Suc m)
    with Cons.prems have "m < length rs" by simp
    from Cons.IH[OF this, of "i + 1"] show ?thesis by (simp add: Suc add.assoc)
  qed
qed

lemma process_loop_set:
  "rec \<in> set (process_loop now i raws) \<Longrightarrow> \<exists>j raw. raw \<in> set raws \<and> rec = process_one now j raw"
proof -
  assume "rec \<in> set (process_loop now i raws)"
  then obtain n where n: "n < length raws" and "rec = process_loop now i raws ! n"
    by (auto simp: in_set_conv_nth process_loop_length)
  then have "rec = process_one now (i + int n) (raws ! n)" by (simp add: process_loop_nth)
  with n show ?thesis using nth_mem by blast
qed


section \<open>The batch classifier\<close>

lemma foldl_const_apply:
  "foldl (\<lambda>r field. r(field \<mapsto> c)) m ks k = (if k \<in> set ks then Some c else m k)"
  by (induction ks arbitrary: m) auto

lemma create_empty_result_apply:
  "create_empty_result p k =
     (if k = ''source_information'' then Some (PStr NON_ANALYSE)
      else if k = ''chemin_fichier'' then Some (PStr (path_str p))
      else if k = ''nom_fichier'' then Some (PStr (name p))
      else if k \<in> set PRODUCT_SCHEMA_keys then Some (PStr NON_DETECTE)
      else None)"
  by (simp add: create_empty_result_def Let_def foldl_const_apply)

lemma create_error_result_apply:
  "create_error_result p msg k =
     (if k = ''erreur'' then Some (PStr msg)
      else if k = ''source_information'' then Some (PStr (''Erreur: '' @ msg))
      else if k = ''chemin_fichier'' then Some (PStr (path_str p))
      else if k = ''nom_fichier'' then Some (PStr (name p))
      else if k \<in> set PRODUCT_SCHEMA_keys then Some (PStr ERREUR_ANALYSE)
      else None)"
  by (simp add: create_error_result_def Let_def foldl_const_apply)

lemma foldl_fill_apply:
  "c \<noteq> PNone \<Longrightarrow>
   foldl (\<lambda>p field. if p field = None \<or> p field = Some PNone then p(field \<mapsto> c) else p) m ks k =
     (if k \<in> set ks \<and> (m k = None \<or> m k = Some PNone) then Some c else m k)"
  by (induction ks arbitrary: m) auto

lemma validate_product_data_apply:
  "validate_product_data product k =
     (case (if k \<in> set PRODUCT_SCHEMA_keys \<and> (product k = None \<or> product k = Some PNone)
            then Some (PStr NON_DETECTE) else product k) of
        None \<Rightarrow> None
      | Some (PStr s) \<Rightarrow> Some (PStr (strip s))
      | Some PNone \<Rightarrow> Some (PStr NON_DETECTE)
      | Some v \<Rightarrow> Some v)"
  by (simp add: validate_product_data_def Let_def foldl_fill_apply)

lemma validate_nom_fichier:
  "validate_product_data (product(''nom_fichier'' \<mapsto> PStr s, ''chemin_fichier'' \<mapsto> PStr t)) ''nom_fichier''
     = Some (PStr (strip s))"
  by (simp add: validate_product_data_apply PRODUCT_SCHEMA_keys_def)

lemma pad_results_eq:
  "pad_results results image_paths =
     results @ map create_empty_result (drop (length results) image_paths)"
proof (induction results image_paths rule: pad_results.induct)
  case (1 results image_paths)
  show ?case
  proof (cases "length results < length image_paths")
    case True
    then have "drop (length results) image_paths =
               image_paths ! length results # drop (Suc (length results)) image_paths"
      by (simp add: Cons_nth_drop_Suc)
    with 1[OF True] True show ?thesis by (subst pad_results.simps) simp
  next
    case False
    then show ?thesis by (subst pad_results.simps) simp
  qed
qed

lemma pad_results_length:
  "length results \<le> length image_paths \<Longrightarrow> length (pad_results results image_paths) = length image_paths"
  by (simp add: pad_results_eq)


lemma all_objects_iff: "all_objects items \<longleftrightarrow> (\<forall>item\<in>set items. \<exists>kvs. item = PDict kvs)"
proof -
  have "\<And>item. (case item of PDict kvs \<Rightarrow> True | _ \<Rightarrow> False) \<longleftrightarrow> (\<exists>kvs. item = PDict kvs)"
    by (simp split: pyval.splits)
  then show ?thesis by (simp add: all_objects_def list_all_iff)
qed

lemma products_loop_TypeError:
  "products_loop paths i items = Inl e \<Longrightarrow> e = TypeError"
  by (induction items arbitrary: i) (auto simp: Let_def split: pyval.splits sum.splits)

lemma products_loop_Inr:
  "products_loop paths i items = Inr rs \<Longrightarrow>
     length rs = length items \<and>
     (\<forall>j<length items. \<exists>kvs. items ! j = PDict kvs \<and>
        rs ! j = validate_product_data
                   (if i + j < length paths
                    then (map_of kvs)(''nom_fichier'' \<mapsto> PStr (name (paths ! (i + j))),
                                      ''chemin_fichier'' \<mapsto> PStr (path_str (paths ! (i + j))))
                    else (map_of kvs)(''nom_fichier'' \<mapsto> PStr (''image_inconnue_'' @ str_nat (i + j + 1)),
                                      ''chemin_fichier'' \<mapsto> PStr [])))"
proof (induction items arbitrary: i rs)
  case Nil
  then show ?case by simp
next
  case (Cons item items)
  from Cons.prems obtain kvs rs' where item: "item = PDict kvs"
    and rec: "products_loop paths (i + 1) items = Inr rs'"
    and rs: "rs = validate_product_data
                   (if i < length paths
                    then (map_of kvs)(''nom_fichier'' \<mapsto> PStr (name (paths ! i)),
                                      ''chemin_fichier'' \<mapsto> PStr (path_str (paths ! i)))
                    else (map_of kvs)(''nom_fichier'' \<mapsto> PStr (''image_inconnue_'' @ str_nat (i + 1)),
                                      ''chemin_fichier'' \<mapsto> PStr [])) # rs'"
    by (auto simp: Let_def split: pyval.splits sum.splits)
  from Cons.IH[OF rec] have len: "length rs' = length items"
    and nth: "\<And>j. j < length items \<Longrightarrow> \<exists>kvs. items ! j = PDict kvs \<and>
        rs' ! j = validate_product_data
                   (if i + 1 + j < length paths
                    then (map_of kvs)(''nom_fichier'' \<mapsto> PStr (name (paths ! (i + 1 + j))),
                                      ''chemin_fichier'' \<mapsto> PStr (path_str (paths ! (i + 1 + j))))
                    else (map_of kvs)(''nom_fichier'' \<mapsto> PStr (''image_inconnue_'' @ str_nat (i + 1 + j + 1)),
                                      ''chemin_fichier'' \<mapsto> PStr []))"
    by auto
  show ?case
  proof (intro conjI allI impI)
    show "length rs = length (item # items)" by (simp add: rs len)
  next
    fix j assume j: "j < length (item # items)"
    show "\<exists>kvs. (item # items) ! j = PDict kvs \<and>
        rs ! j = validate_product_data
                   (if i + j < length paths
                    then (map_of kvs)(''nom_fichier'' \<mapsto> PStr (name (paths ! (i + j))),
                                      ''chemin_fichier'' \<mapsto> PStr (path_str (paths ! (i + j))))
                    else (map_of kvs)(''nom_fichier'' \<mapsto> PStr (''image_inconnue_'' @ str_nat (i + j + 1)),
                                      ''chemin_fichier'' \<mapsto> PStr []))"
    proof (cases j)
      case 0
      then show ?thesis by (simp add: item rs)
    next
      case (Suc m)
      with j have "m < length items" by simp
      from nth[OF this] show ?thesis by (auto simp: Suc rs split: if_splits)
    qed
  qed
qed

lemma products_loop_objects:
  "all_objects items \<Longrightarrow> \<exists>rs. products_loop paths i items = Inr rs"
proof (induction items arbitrary: i)
  case Nil
  then show ?case by simp
next
  case (Cons item items)
  then obtain kvs where "item = PDict kvs" and "all_objects items"
    by (auto simp: all_objects_iff)
  moreover from Cons.IH[OF \<open>all_objects items\<close>, of "i + 1"]
  obtain rs where "products_loop paths (i + 1) items = Inr rs" by blast
  ultimately show ?case by (simp add: Let_def)
qed

lemma refers_to_error: "refers_to (create_error_result p msg) p"
  by (simp add: refers_to_def create_error_result_apply)

lemma refers_to_empty: "refers_to (create_empty_result p) p"
  by (simp add: refers_to_def create_empty_result_apply)

lemma refers_to_validated:
  "refers_to (validate_product_data
               (product(''nom_fichier'' \<mapsto> PStr (name p), ''chemin_fichier'' \<mapsto> PStr t))) p"
  by (simp add: refers_to_def validate_nom_fichier strip_idem)

lemma error_results_aligned:
  "list_all2 refers_to (map (\<lambda>p. create_error_result p msg) paths) paths"
  by (simp add: list_all2_conv_all_nth refers_to_error)

lemma items_of_objects:
  assumes "iter_items products = Inr items" and "products_loop paths i items = Inr rs"
  shows "(\<exists>ps. products = PList ps \<and> items = ps) \<or> items = []"
proof (cases products)
  case (PStr s)
  with assms(1) have items: "items = map (\<lambda>c. PStr [c]) s" by (simp add: iter_items_def)
  show ?thesis
  proof (cases s)
    case Nil then show ?thesis by (simp add: items)
  next
    case (Cons c cs)
    with assms(2) items show ?thesis by simp
  qed
next
  case (PDict kvs)
  with assms(1) have items: "items = map (\<lambda>kv. PStr (fst kv)) kvs" by (simp add: iter_items_def)
  show ?thesis
  proof (cases kvs)
    case Nil then show ?thesis by (simp add: items)
  next
    case (Cons kv rest)
    with assms(2) items show ?thesis by simp
  qed
qed (use assms(1) in \<open>simp_all add: iter_items_def\<close>)

lemma parse_products_Inr:
  assumes "parse_products parsed_data paths = Inr rs"
  obtains products items rs0 where
    "get_produits parsed_data = Inr products" "iter_items products = Inr items"
    "products_loop paths 0 items = Inr rs0" "rs = pad_results rs0 paths"
  using assms unfolding parse_products_def
  by (auto split: sum.splits bool.splits)

lemma get_produits_Inr:
  "get_produits parsed_data = Inr products \<Longrightarrow>
   \<exists>kvs. parsed_data = PDict kvs \<and> map_of kvs ''produits'' = Some products"
  by (auto simp: get_produits_def split: pyval.splits option.splits)

lemma parse_gemini_response_aligned:
  assumes "products_returned w text \<le> length paths"
  shows "list_all2 refers_to (parse_gemini_response w text paths) paths"
proof (cases "json_loads w (strip_fences text)")
  case None
  then show ?thesis by (simp add: parse_gemini_response_def error_results_aligned)
next
  case (Some parsed_data)
  show ?thesis
  proof (cases "parse_products parsed_data paths")
    case (Inl e)
    with Some show ?thesis by (simp add: parse_gemini_response_def error_results_aligned)
  next
    case (Inr rs)
    then obtain products items rs0 where
      gp: "get_produits parsed_data = Inr products" and it: "iter_items products = Inr items"
      and pl: "products_loop paths 0 items = Inr rs0" and rs: "rs = pad_results rs0 paths"
      by (rule parse_products_Inr)
    from get_produits_Inr[OF gp] obtain kvs where
      pd: "parsed_data = PDict kvs" and mp: "map_of kvs ''produits'' = Some products" by blast
    have len_items: "length items \<le> length paths"
    proof -
      from items_of_objects[OF it pl] show ?thesis
      proof
        assume "\<exists>ps. products = PList ps \<and> items = ps"
        then have "products = PList items" by blast
        then have "products_returned w text = length items"
          using Some pd mp by (simp add: products_returned_def products_of_def)
        with assms show ?thesis by simp
      qed simp
    qed
    from products_loop_Inr[OF pl] have len0: "length rs0 = length items"
      and nth0: "\<And>j. j < length items \<Longrightarrow> \<exists>kvs. items ! j = PDict kvs \<and>
        rs0 ! j = validate_product_data
                   (if 0 + j < length paths
                    then (map_of kvs)(''nom_fichier'' \<mapsto> PStr (name (paths ! (0 + j))),
                                      ''chemin_fichier'' \<mapsto> PStr (path_str (paths ! (0 + j))))
                    else (map_of kvs)(''nom_fichier'' \<mapsto> PStr (''image_inconnue_'' @ str_nat (0 + j + 1)),
                                      ''chemin_fichier'' \<mapsto> PStr []))"
      by auto
    have "list_all2 refers_to rs paths"
    proof (unfold list_all2_conv_all_nth, intro conjI allI impI)
      show "length rs = length paths" using len0 len_items by (simp add: rs pad_results_eq)
    next
      fix j assume "j < length rs"
      then have j: "j < length paths" using len0 len_items by (simp add: rs pad_results_eq)
      show "refers_to (rs ! j) (paths ! j)"
      proof (cases "j < length rs0")
        case True
        with len0 have "j < length items" by simp
        from nth0[OF this] j obtain kvs' where
          "rs0 ! j = validate_product_data
                       ((map_of kvs')(''nom_fichier'' \<mapsto> PStr (name (paths ! j)),
                                      ''chemin_fichier'' \<mapsto> PStr (path_str (paths ! j))))"
          by auto
        with True show ?thesis by (simp add: rs pad_results_eq nth_append refers_to_validated)
      next
        case False
        with j show ?thesis by (simp add: rs pad_results_eq nth_append refers_to_empty)
      qed
    qed
    with Some Inr show ?thesis by (simp add: parse_gemini_response_def)
  qed
qed

lemma products_of_Some:
  "products_of w text = Some ps \<Longrightarrow>
   \<exists>kvs. json_loads w (strip_fences text) = Some (PDict kvs) \<and> map_of kvs ''produits'' = Some (PList ps)"
  by (auto simp: products_of_def split: option.splits pyval.splits)

lemma parse_of_objects:
  assumes "products_of w text = Some ps" and "products_loop paths 0 ps = Inr rs0"
  shows "parse_gemini_response w text paths = pad_results rs0 paths"
proof -
  from products_of_Some[OF assms(1)] obtain kvs where
    "json_loads w (strip_fences text) = Some (PDict kvs)" "map_of kvs ''produits'' = Some (PList ps)"
    by blast
  then show ?thesis using assms(2)
    by (simp add: parse_gemini_response_def parse_products_def has_produits_def get_produits_def
          iter_items_def)
qed

lemma analyze_batch_once_Inr:
  "analyze_batch_once w n b = Inr rs \<Longrightarrow>
   \<exists>text. generate_content w n b = Inr text \<and> rs = parse_gemini_response w text b"
  by (auto simp: analyze_batch_once_def split: sum.splits if_splits)

lemma retry_loop_Inr:
  "retry_loop w a n b = (Inr rs, n') \<Longrightarrow>
   \<exists>m text. generate_content w m b = Inr text \<and> rs = parse_gemini_response w text b"
proof (induction w a n b rule: retry_loop.induct)
  case (1 w a n b)
  show ?case
  proof (cases "analyze_batch_once w n b")
    case (Inr rs')
    with "1.prems" have "rs' = rs" by (subst (asm) retry_loop.simps) simp
    with Inr analyze_batch_once_Inr show ?thesis by blast
  next
    case (Inl e)
    show ?thesis
    proof (cases "a \<ge> 3")
      case True
      with Inl "1.prems" show ?thesis by (subst (asm) retry_loop.simps) simp
    next
      case False
      with Inl "1.prems" have "retry_loop w (a + 1) (n + 1) b = (Inr rs, n')"
        by (subst (asm) retry_loop.simps) simp
      from "1.IH"[OF Inl False this] show ?thesis .
    qed
  qed
qed

lemma retry_three_failures:
  assumes "analyze_batch_once w n b = Inl e1"
    and "analyze_batch_once w (n + 1) b = Inl e2"
    and "analyze_batch_once w (n + 2) b = Inl e3"
  shows "analyze_batch w n b = (Inl (RetryError e3), n + 3)"
proof -
  have 3: "retry_loop w 3 (n + 2) b = (Inl (RetryError e3), n + 3)"
    using assms(3) by (subst retry_loop.simps) simp
  have 2: "retry_loop w 2 (n + 1) b = retry_loop w 3 (n + 2) b"
    using assms(2) by (subst retry_loop.simps) (simp add: numeral_3_eq_3 add.commute)
  have 1: "retry_loop w 1 n b = retry_loop w 2 (n + 1) b"
    using assms(1) by (subst retry_loop.simps) (simp add: numeral_2_eq_2)
  show ?thesis unfolding analyze_batch_def 1 2 3 ..
qed

lemma analyze_images_batch_aligned:
  assumes "\<forall>n batch text. generate_content w n batch = Inr text \<longrightarrow>
             products_returned w text \<le> length batch"
  shows "list_all2 refers_to (fst (analyze_images_batch w n b)) b"
proof (cases "analyze_batch w n b")
  case (Pair r n')
  show ?thesis
  proof (cases r)
    case (Inl e)
    with Pair show ?thesis by (simp add: analyze_images_batch_def error_results_aligned)
  next
    case (Inr rs)
    with Pair have "retry_loop w 1 n b = (Inr rs, n')" by (simp add: analyze_batch_def)
    from retry_loop_Inr[OF this] obtain m resp where
      "generate_content w m b = Inr resp" and rs: "rs = parse_gemini_response w resp b" by blast
    with assms have "products_returned w resp \<le> length b" by blast
    from parse_gemini_response_aligned[OF this] Pair Inr rs show ?thesis
      by (simp add: analyze_images_batch_def)
  qed
qed

lemma analyze_images_loop_aligned:
  assumes "\<forall>n batch text. generate_content w n batch = Inr text \<longrightarrow>
             products_returned w text \<le> length batch"
    and "0 < bs"
  shows "list_all2 refers_to (analyze_images_loop w bs n paths) paths"
  using assms
proof (induction w bs n paths rule: analyze_images_loop.induct)
  case (1 w bs n paths)
  show ?case
  proof (cases "paths = []")
    case True
    then show ?thesis by (subst analyze_images_loop.simps) simp
  next
    case False
    with "1.prems"(2) have c: "\<not> (bs = 0 \<or> paths = [])" by simp
    have a: "list_all2 refers_to (fst (analyze_images_batch w n (take bs paths))) (take bs paths)"
      by (rule analyze_images_batch_aligned[OF "1.prems"(1)])
    have b: "list_all2 refers_to
               (analyze_images_loop w bs (snd (analyze_images_batch w n (take bs paths))) (drop bs paths))
               (drop bs paths)"
      by (rule "1.IH"[OF c "1.prems"])
    from list_all2_appendI[OF a b] c show ?thesis
      by (subst analyze_images_loop.simps) simp
  qed
qed

lemma refers_to_process_one: "refers_to (process_one now i r) p = refers_to r p"
proof -
  have "process_one now i r ''nom_fichier'' = clean_result r ''nom_fichier''"
    by (simp add: process_one_def Let_def)
  also have "\<dots> = r ''nom_fichier''" by (simp add: clean_result_meta meta_fields_def)
  finally show ?thesis by (simp add: refers_to_def)
qed

lemma process_one_numero:
  "process_one now i r ''numero_sequence'' = Some (PInt i)"
  by (simp add: process_one_def Let_def)

lemma ERREUR_not_NON_DETECTE: "ERREUR_ANALYSE \<noteq> NON_DETECTE"
  by code_simp


text \<open>
  What the normalizer does to the fields of an error record: the price and the barcode
  rules find no digit in the error sentinel and replace it by the sentinel of a field
  that was not detected, and the volume rule lowercases it.
\<close>

lemma clean_value_error_sentinel:
  "clean_value ''prix_fcfa'' (PStr ERREUR_ANALYSE) = PStr NON_DETECTE \<and>
   clean_value ''code_barres_ean'' (PStr ERREUR_ANALYSE) = PStr NON_DETECTE \<and>
   clean_value ''volume'' (PStr ERREUR_ANALYSE) = PStr (lower ERREUR_ANALYSE) \<and>
   lower ERREUR_ANALYSE \<noteq> ERREUR_ANALYSE \<and>
   clean_value ''nom_produit'' (PStr ERREUR_ANALYSE) = PStr ERREUR_ANALYSE"
  by code_simp

lemma error_record_after_cleaning:
  "clean_result (create_error_result p msg) ''prix_fcfa'' = Some (PStr NON_DETECTE) \<and>
   clean_result (create_error_result p msg) ''code_barres_ean'' = Some (PStr NON_DETECTE) \<and>
   clean_result (create_error_result p msg) ''volume'' = Some (PStr (lower ERREUR_ANALYSE)) \<and>
   clean_result (create_error_result p msg) ''nom_produit'' = Some (PStr ERREUR_ANALYSE)"
  using clean_value_error_sentinel
  by (simp add: clean_result_schema create_error_result_apply PRODUCT_SCHEMA_keys_def)

section \<open>The gatekeeper and the compressor\<close>

lemma scan_entry_eq:
  "scan_entry d acc e =
     (fst acc @ map (\<lambda>e. Path d (fst e)) (valid_entries d [e]), snd acc @ entry_log d e)"
  by (cases acc) (simp add: scan_entry_def valid_entries_def entry_log_def Let_def)

lemma foldl_scan_entry:
  "foldl (scan_entry d) acc es =
     (fst acc @ map (\<lambda>e. Path d (fst e)) (valid_entries d es),
      snd acc @ concat (map (entry_log d) es))"
proof (induction es arbitrary: acc)
  case Nil
  then show ?case by (simp add: valid_entries_def)
next
  case (Cons e es)
  have "foldl (scan_entry d) acc (e # es) = foldl (scan_entry d) (scan_entry d acc e) es"
    by simp
  also have "\<dots> = (fst (scan_entry d acc e) @ map (\<lambda>e. Path d (fst e)) (valid_entries d es),
                     snd (scan_entry d acc e) @ concat (map (entry_log d) es))"
    by (rule Cons.IH)
  also have "\<dots> = (fst acc @ map (\<lambda>e. Path d (fst e)) (valid_entries d (e # es)),
                     snd acc @ concat (map (entry_log d) (e # es)))"
    by (simp add: scan_entry_eq valid_entries_def)
  finally show ?case .
qed

lemma get_input_images_Dir:
  "get_input_images d (Dir es) =
     (Inr (sort_key name (map (\<lambda>e. Path d (fst e)) (valid_entries d es))),
      concat (map (entry_log d) es) @ [(INFO, Valid_images_count (length (valid_entries d es)))])"
  by (simp add: get_input_images_def foldl_scan_entry Let_def)

lemma entry_log_levels: "(lvl, m) \<in> set (entry_log d e) \<Longrightarrow> lvl = DEBUG \<or> lvl = WARNING"
  by (auto simp: entry_log_def split: if_splits)

text \<open>
  The suffix test of \<open>_is_valid_image\<close> agrees with the specification's reading of a
  supported extension.
\<close>

lemma rfind_None: "rfind c xs = None \<longleftrightarrow> c \<notin> set xs"
  by (induction xs) (auto split: option.splits)

lemma rfind_last:
  "c \<notin> set rest \<Longrightarrow> rfind c (pre @ c # rest) = Some (length pre)"
proof (induction pre)
  case Nil
  then have "rfind c rest = None" by (simp add: rfind_None)
  then show ?case by simp
next
  case (Cons x pre)
  then show ?case by simp
qed

lemma extension_of_split:
  assumes "CHR ''.'' \<in> set file_name"
  shows "\<exists>pre. file_name = pre @ CHR ''.'' # extension_of file_name \<and>
               CHR ''.'' \<notin> set (extension_of file_name)"
proof -
  let ?P = "\<lambda>c. c \<noteq> CHR ''.''"
  let ?tw = "takeWhile ?P (rev file_name)"
  let ?dw = "dropWhile ?P (rev file_name)"
  have ne: "?dw \<noteq> []" using assms by (simp add: dropWhile_eq_Nil_conv)
  then have hd: "hd ?dw = CHR ''.''" using hd_dropWhile[of ?P "rev file_name"] by simp
  have "rev file_name = ?tw @ ?dw" by simp
  also have "?dw = CHR ''.'' # tl ?dw" using ne hd by (cases ?dw) auto
  finally have "rev (rev file_name) = rev (?tw @ CHR ''.'' # tl ?dw)" by (rule arg_cong)
  then have "file_name = rev (tl ?dw) @ CHR ''.'' # extension_of file_name"
    by (simp add: extension_of_def)
  moreover have "CHR ''.'' \<notin> set (extension_of file_name)"
    using set_takeWhileD[of "CHR ''.''" ?P "rev file_name"] by (auto simp: extension_of_def)
  ultimately show ?thesis by blast
qed

lemma lower_dot: "lower (CHR ''.'' # e) = CHR ''.'' # lower e"
  by (simp add: lower_def lower_char_def code_def)

lemma dotted_supported:
  "CHR ''.'' # e \<in> set SUPPORTED_IMAGE_FORMATS \<longleftrightarrow> e \<in> set spec_extensions"
  by (auto simp: SUPPORTED_IMAGE_FORMATS_def spec_extensions_def)

lemma is_valid_image_spec:
  "is_valid_image (Path input_dir file_name) \<longleftrightarrow> spec_supported file_name"
proof (cases "CHR ''.'' \<in> set file_name")
  case False
  then have "rfind (CHR ''.'') file_name = None" by (simp add: rfind_None)
  then have "path_suffix (Path input_dir file_name) = []" by (simp add: path_suffix_def)
  then have "\<not> is_valid_image (Path input_dir file_name)"
    by (simp add: is_valid_image_def lower_def SUPPORTED_IMAGE_FORMATS_def)
  then show ?thesis using False by (simp add: spec_supported_def)
next
  case True
  then obtain pre where n: "file_name = pre @ CHR ''.'' # extension_of file_name"
    and nd: "CHR ''.'' \<notin> set (extension_of file_name)"
    using extension_of_split by blast
  define e where "e = extension_of file_name"
  have n': "file_name = pre @ CHR ''.'' # e" using n by (simp add: e_def)
  have nd': "CHR ''.'' \<notin> set e" using nd by (simp add: e_def)
  have r: "rfind (CHR ''.'') file_name = Some (length pre)"
    unfolding n' using nd' by (rule rfind_last)
  have len: "length file_name = length pre + 1 + length e" using n' by simp
  have d: "drop (length pre) file_name = CHR ''.'' # e" using n' by simp
  have s: "path_suffix (Path input_dir file_name) = (if pre \<noteq> [] \<and> e \<noteq> [] then CHR ''.'' # e else [])"
    using r len d by (auto simp add: path_suffix_def)
  have v: "is_valid_image (Path input_dir file_name) \<longleftrightarrow> pre \<noteq> [] \<and> e \<noteq> [] \<and> lower e \<in> set spec_extensions"
    unfolding is_valid_image_def s
    by (auto simp: lower_dot dotted_supported) (simp_all add: lower_def SUPPORTED_IMAGE_FORMATS_def)
  have l0: "lower e \<in> set spec_extensions \<Longrightarrow> e \<noteq> []"
    by (auto simp: lower_def spec_extensions_def)
  have "spec_supported file_name \<longleftrightarrow> pre \<noteq> [] \<and> lower e \<in> set spec_extensions"
    using True len by (auto simp: spec_supported_def e_def[symmetric])
  then show ?thesis using v l0 by blast
qed

lemma valid_entries_spec:
  "valid_entries input_dir entries = filter (\<lambda>entry. snd entry \<and> spec_supported (fst entry)) entries"
  by (simp add: valid_entries_def is_valid_image_spec)

lemma entry_log_spec:
  "entry_log input_dir entry =
     (if snd entry \<and> spec_supported (fst entry) then [(DEBUG, Valid_image_found (fst entry))]
      else if snd entry then [(WARNING, File_ignored (fst entry))] else [])"
  by (simp add: entry_log_def is_valid_image_spec)

lemma warnings_spec:
  "(WARNING, File_ignored n) \<in> set (concat (map (entry_log input_dir) entries))
     \<longleftrightarrow> (n, True) \<in> set entries \<and> \<not> spec_supported n"
  by (induction entries) (auto simp: entry_log_spec)

lemma spec_supported_examples: "spec_supported ''b.JPG'' \<and> spec_supported ''Z.heic'' \<and> \<not> spec_supported ''.jpg''
  \<and> \<not> spec_supported ''notes.txt'' \<and> \<not> spec_supported ''a.jpg.bak'' \<and> spec_supported ''a.b.JpEg''"
  by code_simp

lemma get_input_images_example: "get_input_images ''input'' (Dir example_entries)
  = (Inr [Path ''input'' ''Z.heic'', Path ''input'' ''a.png'', Path ''input'' ''b.JPG''],
     [(DEBUG, Valid_image_found ''b.JPG''), (DEBUG, Valid_image_found ''a.png''),
      (WARNING, File_ignored ''notes.txt''), (WARNING, File_ignored ''.jpg''),
      (DEBUG, Valid_image_found ''Z.heic''), (INFO, Valid_images_count 3)])"
  by code_simp

lemma get_file_size_mb_missing: "fs p = None \<Longrightarrow> get_file_size_mb fs p = 0"
  by (simp add: get_file_size_mb_def)

lemma files_log [simp]: "files (log_record lvl msg s) = files s"
  by (simp add: log_record_def)

lemma saved_log [simp]: "saved (log_record lvl msg s) = saved s"
  by (simp add: log_record_def)

lemma logged_log [simp]: "logged (log_record lvl msg s) = logged s @ [(lvl, msg)]"
  by (simp add: log_record_def)

lemma quality_steps_Cons:
  "qs \<noteq> [] \<Longrightarrow> hd qs = max 20 (q - 15) \<Longrightarrow> quality_steps qs \<Longrightarrow> quality_steps (q # qs)"
  by (cases qs) auto

lemma compress_loop_run:
  assumes ok: "\<forall>quality. \<exists>encoded. save cdc img quality = Inr encoded"
    and "attempt < 5"
  shows "\<exists>s' qs encoded.
           compress_loop cdc max_mb img inp tmp attempt q s = (Inr (), s') \<and>
           saved s' = saved s @ qs \<and> qs \<noteq> [] \<and> length qs \<le> 5 - attempt \<and> hd qs = q \<and>
           quality_steps qs \<and>
           (\<forall>x\<in>set (butlast qs). \<not> fits cdc max_mb img x) \<and>
           (\<forall>x\<in>set (tl qs). 20 \<le> x) \<and>
           save cdc img (last qs) = Inr encoded \<and>
           files s' = (files s)(tmp \<mapsto> encoded) \<and>
           (if fits cdc max_mb img (last qs)
            then logged s' = logged s @ [(DEBUG, Compression_succeeded (last qs))]
            else length qs = 5 - attempt \<and>
                 logged s' = logged s @ [(WARNING, Cannot_reduce (name inp))])"
  using assms(2)
proof (induction "5 - attempt" arbitrary: attempt q s)
  case 0
  then show ?case by simp
next
  case (Suc k)
  from ok obtain encoded where enc: "save cdc img q = Inr encoded" by blast
  define s1 where "s1 = s\<lparr>saved := saved s @ [q], files := (files s)(tmp \<mapsto> encoded)\<rparr>"
  have size: "get_file_size_mb (files s1) tmp \<le> max_mb \<longleftrightarrow> fits cdc max_mb img q"
    by (simp add: s1_def get_file_size_mb_def fits_def enc)
  have na: "\<not> attempt \<ge> 5" using Suc.prems by simp
  show ?case
  proof (cases "fits cdc max_mb img q")
    case True
    have "compress_loop cdc max_mb img inp tmp attempt q s
            = (Inr (), log_record DEBUG (Compression_succeeded q) s1)"
      using na enc True size
      by (subst compress_loop.simps) (simp add: Let_def s1_def)
    then show ?thesis using Suc.prems
      by (intro exI[of _ "log_record DEBUG (Compression_succeeded q) s1"] exI[of _ "[q]"] exI[of _ encoded])
         (simp add: s1_def enc True)
  next
    case False
    have step: "compress_loop cdc max_mb img inp tmp attempt q s
            = compress_loop cdc max_mb img inp tmp (attempt + 1) (max 20 (q - 15))
                (if attempt = 4 then log_record WARNING (Cannot_reduce (name inp)) s1 else s1)"
      using na enc False size
      by (subst compress_loop.simps) (simp add: Let_def s1_def)
    show ?thesis
    proof (cases "attempt = 4")
      case True
      have "compress_loop cdc max_mb img inp tmp attempt q s
              = (Inr (), log_record WARNING (Cannot_reduce (name inp)) s1)"
        unfolding step using True by (subst compress_loop.simps) simp
      then show ?thesis using Suc.prems
        by (intro exI[of _ "log_record WARNING (Cannot_reduce (name inp)) s1"] exI[of _ "[q]"]
              exI[of _ encoded])
           (simp add: s1_def enc False True)
    next
      case nf: False
      with Suc.prems have lt: "attempt + 1 < 5" by simp
      from Suc.hyps(2) have k: "k = 5 - (attempt + 1)" by simp
      from Suc.hyps(1)[OF k lt, of "max 20 (q - 15)" s1]
      obtain s' qs' encoded' where
        run: "compress_loop cdc max_mb img inp tmp (attempt + 1) (max 20 (q - 15)) s1 = (Inr (), s')"
        and sv: "saved s' = saved s1 @ qs'" and ne: "qs' \<noteq> []"
        and len: "length qs' \<le> 5 - (attempt + 1)" and hd: "hd qs' = max 20 (q - 15)"
        and qst: "quality_steps qs'"
        and bl: "\<forall>x\<in>set (butlast qs'). \<not> fits cdc max_mb img x"
        and fl: "\<forall>x\<in>set (tl qs'). 20 \<le> x"
        and last: "save cdc img (last qs') = Inr encoded'"
        and fs: "files s' = (files s1)(tmp \<mapsto> encoded')"
        and lg: "if fits cdc max_mb img (last qs')
                 then logged s' = logged s1 @ [(DEBUG, Compression_succeeded (last qs'))]
                 else length qs' = 5 - (attempt + 1) \<and>
                      logged s' = logged s1 @ [(WARNING, Cannot_reduce (name inp))]"
        by blast
      have all20: "\<forall>x\<in>set qs'. 20 \<le> x"
      proof
        fix x assume "x \<in> set qs'"
        with ne have "x = hd qs' \<or> x \<in> set (tl qs')" by (cases qs') auto
        with hd fl show "20 \<le> x" by auto
      qed
      have full: "compress_loop cdc max_mb img inp tmp attempt q s = (Inr (), s')"
        unfolding step using nf run by simp
      show ?thesis
      proof (intro exI[of _ s'] exI[of _ "q # qs'"] exI[of _ encoded'] conjI)
        show "compress_loop cdc max_mb img inp tmp attempt q s = (Inr (), s')" by (rule full)
        show "saved s' = saved s @ q # qs'" by (simp add: sv s1_def)
        show "q # qs' \<noteq> []" by simp
        show "length (q # qs') \<le> 5 - attempt" using len lt by simp
        show "hd (q # qs') = q" by simp
        show "quality_steps (q # qs')" by (rule quality_steps_Cons[OF ne hd qst])
        show "\<forall>x\<in>set (butlast (q # qs')). \<not> fits cdc max_mb img x"
          using ne bl False by simp
        show "\<forall>x\<in>set (tl (q # qs')). 20 \<le> x" using all20 by simp
        show "save cdc img (last (q # qs')) = Inr encoded'" using ne last by simp
        show "files s' = (files s)(tmp \<mapsto> encoded')" by (simp add: fs s1_def)
        show "if fits cdc max_mb img (last (q # qs'))
              then logged s' = logged s @ [(DEBUG, Compression_succeeded (last (q # qs')))]
              else length (q # qs') = 5 - attempt \<and>
                   logged s' = logged s @ [(WARNING, Cannot_reduce (name inp))]"
          using lg ne lt by (auto simp: s1_def split: if_splits)
      qed
    qed
  qed
qed

lemma compress_image_example:
  "saved (snd (compress_image example_codec (10 / (1024 * 1024)) 85 (Path ''input'' ''a.jpg'')
                 (Path ''processed'' ''a.jpg'') example_io)) = [85, 70, 55, 40, 25] \<and>
   logged (snd (compress_image example_codec (10 / (1024 * 1024)) 85 (Path ''input'' ''a.jpg'')
                 (Path ''processed'' ''a.jpg'') example_io)) = [(WARNING, Cannot_reduce ''a.jpg'')] \<and>
   saved (snd (compress_image example_codec (60 / (1024 * 1024)) 85 (Path ''input'' ''a.jpg'')
                 (Path ''processed'' ''a.jpg'') example_io)) = [85, 70, 55]"
  by code_simp

section \<open>Claims about the batch classifier\<close>

text \<open>
  Claim C1. For a positive batch size and a remote model that never returns more
  products than the batch it is asked about has images, \<open>analyze_images\<close> followed
  by \<open>process_results\<close> yields as many records as there are images, and the record
  at each position carries the sequence number of that position and the file name of
  the image at that position: no position is dropped, duplicated or moved.
\<close>

theorem analyze_then_process_one_record_per_image:
  assumes "0 < batch_size"
    and "\<forall>n batch response_text.
           generate_content w n batch = Inr response_text \<longrightarrow>
           products_returned w response_text \<le> length batch"
  shows "\<exists>raw_results.
           analyze_images w batch_size image_paths = Inr raw_results \<and>
           length (process_results now raw_results) = length image_paths \<and>
           (\<forall>i<length image_paths.
              refers_to (process_results now raw_results ! i) (image_paths ! i) \<and>
              (process_results now raw_results ! i) ''numero_sequence'' = Some (PInt (int i + 1)))"
proof -
  let ?raw = "analyze_images_loop w (nat batch_size) 0 image_paths"
  from assms(1) have bs: "0 < nat batch_size" by simp
  have run: "analyze_images w batch_size image_paths = Inr ?raw"
    using assms(1) by (simp add: analyze_images_def)
  have al: "list_all2 refers_to ?raw image_paths"
    by (rule analyze_images_loop_aligned[OF assms(2) bs])
  then have len: "length ?raw = length image_paths" by (rule list_all2_lengthD)
  have "\<forall>i<length image_paths.
          refers_to (process_results now ?raw ! i) (image_paths ! i) \<and>
          (process_results now ?raw ! i) ''numero_sequence'' = Some (PInt (int i + 1))"
  proof (intro allI impI)
    fix i assume i: "i < length image_paths"
    with len have i': "i < length ?raw" by simp
    then have "process_results now ?raw ! i = process_one now (1 + int i) (?raw ! i)"
      by (simp add: process_results_def process_loop_nth)
    moreover from al i' have "refers_to (?raw ! i) (image_paths ! i)"
      by (simp add: list_all2_conv_all_nth)
    ultimately show "refers_to (process_results now ?raw ! i) (image_paths ! i) \<and>
          (process_results now ?raw ! i) ''numero_sequence'' = Some (PInt (int i + 1))"
      by (simp add: refers_to_process_one process_one_numero add.commute)
  qed
  with run len show ?thesis by (simp add: process_results_def process_loop_length)
qed

theorem analyze_then_process_one_record_per_image_witness:
  "\<exists>raw_results.
     analyze_images one_product_world 2 example_images = Inr raw_results \<and>
     length (process_results example_clock raw_results) = length example_images \<and>
     (\<forall>i<length example_images.
        refers_to (process_results example_clock raw_results ! i) (example_images ! i) \<and>
        (process_results example_clock raw_results ! i) ''numero_sequence'' = Some (PInt (int i + 1)))"
proof -
  have h1: "(0::int) < 2" by simp
  have h2: "\<forall>n batch response_text.
           generate_content one_product_world n batch = Inr response_text \<longrightarrow>
           products_returned one_product_world response_text \<le> length batch"
    by (auto simp: one_product_world_def products_returned_def products_of_def Suc_le_eq
             split: if_splits)
  show ?thesis by (rule analyze_then_process_one_record_per_image[OF h1 h2])
qed

text \<open>
  Claim C2, as stated: after three failed attempts every one of the seven schema fields
  of a record of the batch is \<^const>\<open>ERREUR_ANALYSE\<close>. It fails on the seventh,
  \<open>source_information\<close>, which \<open>_create_error_result\<close> overwrites with the
  error message.
\<close>

theorem failed_batch_source_information:
  "analyze_batch_once failing_world 0 example_images = Inl (ExternalError ''timeout'') \<and>
   analyze_batch_once failing_world 1 example_images = Inl (ExternalError ''timeout'') \<and>
   analyze_batch_once failing_world 2 example_images = Inl (ExternalError ''timeout'') \<and>
   (fst (analyze_images_batch failing_world 0 example_images) ! 0) ''source_information''
     = Some (PStr ''Erreur: RetryError'') \<and>
   (fst (analyze_images_batch failing_world 0 example_images) ! 0) ''source_information''
     \<noteq> Some (PStr ERREUR_ANALYSE)"
proof -
  have a: "\<And>n. analyze_batch_once failing_world n example_images = Inl (ExternalError ''timeout'')"
    by (simp add: analyze_batch_once_def failing_world_def)
  have b: "(fst (analyze_images_batch failing_world 0 example_images) ! 0) ''source_information''
             = Some (PStr ''Erreur: RetryError'')"
    by code_simp
  have c: "Some (PStr ''Erreur: RetryError'') \<noteq> Some (PStr ERREUR_ANALYSE)"
    by code_simp
  from a b c show ?thesis by simp
qed

text \<open>
  Claim C2, amended. When the three attempts for a batch all raise, every image of the
  batch yields the error record of \<open>_create_error_result\<close>: its six schema fields
  other than \<open>source_information\<close> carry \<^const>\<open>ERREUR_ANALYSE\<close> (which is not the
  \<^const>\<open>NON_DETECTE\<close> sentinel), \<open>source_information\<close> carries \<open>Erreur: \<close> followed by
  the message, \<open>erreur\<close> carries the message, and the normalizer gives it the status
  \<open>Erreur\<close> and keeps the message.
\<close>

theorem failed_batch_error_records:
  assumes "analyze_batch_once w n batch = Inl e1"
    and "analyze_batch_once w (n + 1) batch = Inl e2"
    and "analyze_batch_once w (n + 2) batch = Inl e3"
  shows "let msg = str_exn w (RetryError e3) in
           fst (analyze_images_batch w n batch)
             = map (\<lambda>image_path. create_error_result image_path msg) batch \<and>
           ERREUR_ANALYSE \<noteq> NON_DETECTE \<and>
           (\<forall>image_path.
              (\<forall>field \<in> set PRODUCT_SCHEMA_keys - {''source_information''}.
                 create_error_result image_path msg field = Some (PStr ERREUR_ANALYSE)) \<and>
              create_error_result image_path msg ''source_information''
                = Some (PStr (''Erreur: '' @ msg)) \<and>
              create_error_result image_path msg ''erreur'' = Some (PStr msg) \<and>
              process_one now i (create_error_result image_path msg) ''statut''
                = Some (PStr ''Erreur'') \<and>
              process_one now i (create_error_result image_path msg) ''erreur''
                = Some (PStr msg))"
proof -
  let ?msg = "str_exn w (RetryError e3)"
  have 1: "fst (analyze_images_batch w n batch)
             = map (\<lambda>image_path. create_error_result image_path ?msg) batch"
    by (simp add: analyze_images_batch_def retry_three_failures[OF assms])
  have 2: "\<And>p field. field \<in> set PRODUCT_SCHEMA_keys - {''source_information''} \<Longrightarrow>
             create_error_result p ?msg field = Some (PStr ERREUR_ANALYSE)"
    by (auto simp: create_error_result_apply PRODUCT_SCHEMA_keys_def)
  have 3: "\<And>p. create_error_result p ?msg ''source_information'' = Some (PStr (''Erreur: '' @ ?msg))"
    by (simp add: create_error_result_apply)
  have 4: "\<And>p. create_error_result p ?msg ''erreur'' = Some (PStr ?msg)"
    by (simp add: create_error_result_apply)
  have 5: "\<And>p. clean_result (create_error_result p ?msg) ''erreur'' = Some (PStr ?msg)"
    by (simp add: clean_result_meta meta_fields_def 4)
  have 6: "\<And>p. process_one now i (create_error_result p ?msg) ''statut'' = Some (PStr ''Erreur'')"
    by (simp add: process_one_statut 5)
  have 7: "\<And>p. process_one now i (create_error_result p ?msg) ''erreur'' = Some (PStr ?msg)"
    by (simp add: process_one_erreur 5)
  from 1 2 3 4 6 7 ERREUR_not_NON_DETECTE show ?thesis unfolding Let_def by blast
qed

theorem failed_batch_error_records_witness:
  "let msg = str_exn failing_world (RetryError (ExternalError ''timeout'')) in
           fst (analyze_images_batch failing_world 0 example_images)
             = map (\<lambda>image_path. create_error_result image_path msg) example_images \<and>
           ERREUR_ANALYSE \<noteq> NON_DETECTE \<and>
           (\<forall>image_path.
              (\<forall>field \<in> set PRODUCT_SCHEMA_keys - {''source_information''}.
                 create_error_result image_path msg field = Some (PStr ERREUR_ANALYSE)) \<and>
              create_error_result image_path msg ''source_information''
                = Some (PStr (''Erreur: '' @ msg)) \<and>
              create_error_result image_path msg ''erreur'' = Some (PStr msg) \<and>
              process_one example_clock 1 (create_error_result image_path msg) ''statut''
                = Some (PStr ''Erreur'') \<and>
              process_one example_clock 1 (create_error_result image_path msg) ''erreur''
                = Some (PStr msg))"
proof -
  have a: "\<And>n. analyze_batch_once failing_world n example_images = Inl (ExternalError ''timeout'')"
    by (simp add: analyze_batch_once_def failing_world_def)
  show ?thesis by (rule failed_batch_error_records[OF a a a])
qed

text \<open>
  Claim C8. When the response holds fewer products (all of them JSON objects) than the
  batch has images, the parsed results are as many as the images; the product at each
  position is matched with the image at that position; and every later position holds
  the placeholder of \<open>_create_empty_result\<close> for its image, whose
  \<open>source_information\<close> is \<^const>\<open>NON_ANALYSE\<close> and whose other six schema fields are
  the \<^const>\<open>NON_DETECTE\<close> sentinel.
\<close>

theorem parse_pads_missing_products:
  assumes "products_of w response_text = Some products"
    and "all_objects products"
    and "length products < length image_paths"
  shows "length (parse_gemini_response w response_text image_paths) = length image_paths \<and>
         (\<forall>i<length products.
            \<exists>kvs. products ! i = PDict kvs \<and>
              parse_gemini_response w response_text image_paths ! i
                = validate_product_data
                    ((map_of kvs)(''nom_fichier'' \<mapsto> PStr (name (image_paths ! i)),
                                  ''chemin_fichier'' \<mapsto> PStr (path_str (image_paths ! i))))) \<and>
         (\<forall>i. length products \<le> i \<and> i < length image_paths \<longrightarrow>
            parse_gemini_response w response_text image_paths ! i
              = create_empty_result (image_paths ! i) \<and>
            (\<forall>field \<in> set PRODUCT_SCHEMA_keys - {''source_information''}.
               (parse_gemini_response w response_text image_paths ! i) field
                 = Some (PStr NON_DETECTE)) \<and>
            (parse_gemini_response w response_text image_paths ! i) ''source_information''
              = Some (PStr NON_ANALYSE) \<and>
            (parse_gemini_response w response_text image_paths ! i) ''nom_fichier''
              = Some (PStr (name (image_paths ! i))))"
proof -
  from products_loop_objects[OF assms(2)] obtain rs0 where
    pl: "products_loop image_paths 0 products = Inr rs0" by blast
  have eq: "parse_gemini_response w response_text image_paths
              = rs0 @ map create_empty_result (drop (length rs0) image_paths)"
    by (simp add: parse_of_objects[OF assms(1) pl] pad_results_eq)
  from products_loop_Inr[OF pl] have len0: "length rs0 = length products"
    and nth0: "\<And>j. j < length products \<Longrightarrow> \<exists>kvs. products ! j = PDict kvs \<and>
        rs0 ! j = validate_product_data
                   (if 0 + j < length image_paths
                    then (map_of kvs)(''nom_fichier'' \<mapsto> PStr (name (image_paths ! (0 + j))),
                                      ''chemin_fichier'' \<mapsto> PStr (path_str (image_paths ! (0 + j))))
                    else (map_of kvs)(''nom_fichier'' \<mapsto> PStr (''image_inconnue_'' @ str_nat (0 + j + 1)),
                                      ''chemin_fichier'' \<mapsto> PStr []))"
    by auto
  have A: "length (parse_gemini_response w response_text image_paths) = length image_paths"
    using assms(3) by (simp add: eq len0)
  have B: "\<forall>i<length products.
            \<exists>kvs. products ! i = PDict kvs \<and>
              parse_gemini_response w response_text image_paths ! i
                = validate_product_data
                    ((map_of kvs)(''nom_fichier'' \<mapsto> PStr (name (image_paths ! i)),
                                  ''chemin_fichier'' \<mapsto> PStr (path_str (image_paths ! i))))"
  proof (intro allI impI)
    fix i assume i: "i < length products"
    with assms(3) have "i < length image_paths" by simp
    with nth0[OF i] i show "\<exists>kvs. products ! i = PDict kvs \<and>
              parse_gemini_response w response_text image_paths ! i
                = validate_product_data
                    ((map_of kvs)(''nom_fichier'' \<mapsto> PStr (name (image_paths ! i)),
                                  ''chemin_fichier'' \<mapsto> PStr (path_str (image_paths ! i))))"
      by (auto simp: eq nth_append len0)
  qed
  have C: "\<And>i. length products \<le> i \<Longrightarrow> i < length image_paths \<Longrightarrow>
             parse_gemini_response w response_text image_paths ! i
               = create_empty_result (image_paths ! i)"
    by (simp add: eq nth_append len0)
  have D: "\<And>p field. field \<in> set PRODUCT_SCHEMA_keys - {''source_information''} \<Longrightarrow>
             create_empty_result p field = Some (PStr NON_DETECTE)"
    by (auto simp: create_empty_result_apply PRODUCT_SCHEMA_keys_def)
  from A B C D show ?thesis by (simp add: create_empty_result_apply)
qed

theorem parse_pads_missing_products_witness:
  "length (parse_gemini_response two_product_world ''two products'' example_images)
     = length example_images \<and>
   parse_gemini_response two_product_world ''two products'' example_images ! 2
     = create_empty_result (example_images ! 2) \<and>
   (parse_gemini_response two_product_world ''two products'' example_images ! 2) ''source_information''
     = Some (PStr NON_ANALYSE) \<and>
   (parse_gemini_response two_product_world ''two products'' example_images ! 2) ''volume''
     = Some (PStr NON_DETECTE) \<and>
   (parse_gemini_response two_product_world ''two products'' example_images ! 2) ''nom_fichier''
     = Some (PStr ''c.webp'')"
proof -
  let ?ps = "[PDict [(''nom_produit'', PStr ''Lait ''), (''volume'', PStr ''1 litre'')],
              PDict [(''nom_produit'', PStr ''Riz''), (''prix_fcfa'', PNone)]]"
  have h1: "products_of two_product_world ''two products'' = Some ?ps" by code_simp
  have h2: "all_objects ?ps" by code_simp
  have h3: "length ?ps < length example_images" by (simp add: example_images_def)
  have vol: "''volume'' \<in> set PRODUCT_SCHEMA_keys - {''source_information''}"
    by (simp add: PRODUCT_SCHEMA_keys_def)
  have i: "length ?ps \<le> 2 \<and> 2 < length example_images" by (simp add: example_images_def)
  from parse_pads_missing_products[OF h1 h2 h3] i vol show ?thesis
    by (auto simp: example_images_def)
qed

section \<open>Claims about the record normalizer\<close>

text \<open>
  Claim C3. Every record emitted by \<open>process_results\<close> has a completeness score
  between 0 and 100 and a status that is one of \<open>Complet\<close>, \<open>Partiel\<close>, \<open>Erreur\<close>; the
  status is \<open>Complet\<close> exactly when the record carries no \<open>erreur\<close> key (which the
  normalizer copies from the cleaned record) and its score is at least 80.
\<close>

theorem process_results_score_status:
  "\<forall>rec \<in> set (process_results now raw_results).
     \<exists>score statut.
       rec ''score_completude'' = Some (PFloat score) \<and> 0 \<le> score \<and> score \<le> 100 \<and>
       rec ''statut'' = Some (PStr statut) \<and>
       statut \<in> {''Complet'', ''Partiel'', ''Erreur''} \<and>
       (statut = ''Complet'' \<longleftrightarrow> rec ''erreur'' = None \<and> 80 \<le> score)"
proof
  fix rec assume "rec \<in> set (process_results now raw_results)"
  then obtain j raw where rec: "rec = process_one now j raw"
    unfolding process_results_def using process_loop_set by blast
  let ?s = "calculate_completeness (clean_result raw)"
  let ?st = "if clean_result raw ''erreur'' \<noteq> None then ''Erreur''
             else if 80 \<le> ?s then ''Complet'' else ''Partiel''"
  have "rec ''score_completude'' = Some (PFloat ?s)" by (simp add: rec process_one_score)
  moreover have "0 \<le> ?s \<and> ?s \<le> 100" by (rule calculate_completeness_range)
  moreover have "rec ''statut'' = Some (PStr ?st)" by (simp only: rec process_one_statut)
  moreover have "?st \<in> {''Complet'', ''Partiel'', ''Erreur''}" by simp
  moreover have "?st = ''Complet'' \<longleftrightarrow> rec ''erreur'' = None \<and> 80 \<le> ?s"
    by (simp add: rec process_one_erreur)
  ultimately show "\<exists>score statut.
       rec ''score_completude'' = Some (PFloat score) \<and> 0 \<le> score \<and> score \<le> 100 \<and>
       rec ''statut'' = Some (PStr statut) \<and>
       statut \<in> {''Complet'', ''Partiel'', ''Erreur''} \<and>
       (statut = ''Complet'' \<longleftrightarrow> rec ''erreur'' = None \<and> 80 \<le> score)"
    by blast
qed

theorem process_results_score_status_witness:
  "process_one (\<lambda>i. ''2026-01-01 00:00:00'') 1 [''volume'' \<mapsto> PStr ''2 Litres'']
     \<in> set (process_results (\<lambda>i. ''2026-01-01 00:00:00'') [[''volume'' \<mapsto> PStr ''2 Litres'']]) \<and>
   (\<exists>score statut.
       process_one (\<lambda>i. ''2026-01-01 00:00:00'') 1 [''volume'' \<mapsto> PStr ''2 Litres'']
         ''score_completude'' = Some (PFloat score) \<and> 0 \<le> score \<and> score \<le> 100 \<and>
       process_one (\<lambda>i. ''2026-01-01 00:00:00'') 1 [''volume'' \<mapsto> PStr ''2 Litres'']
         ''statut'' = Some (PStr statut) \<and>
       statut \<in> {''Complet'', ''Partiel'', ''Erreur''} \<and>
       (statut = ''Complet'' \<longleftrightarrow>
          process_one (\<lambda>i. ''2026-01-01 00:00:00'') 1 [''volume'' \<mapsto> PStr ''2 Litres'']
            ''erreur'' = None \<and> 80 \<le> score))"
proof -
  let ?now = "\<lambda>i::int. ''2026-01-01 00:00:00''"
  let ?raw = "[''volume'' \<mapsto> PStr ''2 Litres'']"
  have h: "process_one ?now 1 ?raw \<in> set (process_results ?now [?raw])"
    by (simp add: process_results_def)
  from bspec[OF process_results_score_status h] h show ?thesis by (intro conjI)
qed

text \<open>
  Claim C4, as stated: cleaning an already cleaned record yields the same record. It
  fails on the volume: \<open>2 Litres\<close> is cleaned to \<open>2 L\<close>, and cleaning \<open>2 L\<close> lowercases
  it to \<open>2 l\<close>.
\<close>

theorem clean_result_not_idempotent:
  "clean_result (clean_result [''volume'' \<mapsto> PStr ''2 Litres''])
     \<noteq> clean_result [''volume'' \<mapsto> PStr ''2 Litres''] \<and>
   clean_result [''volume'' \<mapsto> PStr ''2 Litres''] ''volume'' = Some (PStr ''2 L'') \<and>
   clean_result (clean_result [''volume'' \<mapsto> PStr ''2 Litres'']) ''volume'' = Some (PStr ''2 l'')"
proof -
  let ?r = "[''volume'' \<mapsto> PStr ''2 Litres'']"
  have a: "clean_result ?r ''volume'' = Some (PStr ''2 L'')" by code_simp
  have b: "clean_result (clean_result ?r) ''volume'' = Some (PStr ''2 l'')" by code_simp
  have "clean_result (clean_result ?r) \<noteq> clean_result ?r"
  proof
    assume "clean_result (clean_result ?r) = clean_result ?r"
    then have "clean_result (clean_result ?r) ''volume'' = clean_result ?r ''volume''" by simp
    with a b show False by simp
  qed
  with a b show ?thesis by simp
qed

text \<open>
  Claim C4, amended. Cleaning is idempotent on every key other than \<open>volume\<close>: a
  cleaned record cleaned again has the same value under each such key, and for each
  field other than \<open>volume\<close> a cleaned value is a fixed point of the field's rule
  (the sentinel substitution, the price rule, the barcode rule, trimming).
\<close>

theorem clean_result_idempotent_except_volume:
  assumes "field \<noteq> ''volume''"
  shows "clean_result (clean_result r) field = clean_result r field \<and>
         clean_value field (clean_value field v) = clean_value field v"
  using assms by (simp add: clean_result_idem_field clean_value_idem)

theorem clean_result_idempotent_except_volume_witness:
  "''prix_fcfa'' \<noteq> ''volume'' \<and>
   clean_result (clean_result [''prix_fcfa'' \<mapsto> PStr ''1 200,50 FCFA'']) ''prix_fcfa''
     = clean_result [''prix_fcfa'' \<mapsto> PStr ''1 200,50 FCFA''] ''prix_fcfa'' \<and>
   clean_value ''prix_fcfa'' (clean_value ''prix_fcfa'' (PStr ''1 200,50 FCFA''))
     = clean_value ''prix_fcfa'' (PStr ''1 200,50 FCFA'')"
proof -
  have h: "''prix_fcfa'' \<noteq> ''volume''" by simp
  from h clean_result_idempotent_except_volume[OF h] show ?thesis by (rule conjI)
qed

text \<open>
  Claim C5. The volume rule lowercases, applies the substitution table in its order
  and trims: \<open>2 Litres\<close> is cleaned to \<open>2 L\<close>. The entry for \<open>litres\<close> comes before
  the entry for \<open>millilitres\<close>, so that word is never found any more when its turn
  comes: \<open>500 millilitres\<close> is cleaned to \<open>500 milliL\<close>, not to \<open>500 mL\<close>, and
  likewise \<open>3 kilogrammes\<close> to \<open>3 kilog\<close>.
\<close>

theorem clean_volume_table_order:
  "clean_volume ''2 Litres'' = ''2 L'' \<and>
   clean_volume ''500 millilitres'' = ''500 milliL'' \<and>
   clean_volume ''500 millilitres'' \<noteq> ''500 mL'' \<and>
   clean_volume ''3 kilogrammes'' = ''3 kilog''"
  by code_simp

section \<open>Claims about the gatekeeper and the compressor\<close>

text \<open>
  Claim C9. For an absent input directory \<open>get_input_images\<close> returns the empty list
  and logs an error, without raising. For a directory it returns, sorted by name, the
  paths of exactly those entries that are files and whose extension, lowercased, is one
  of jpg, jpeg, png, webp, heic and heif, each as often as the listing has it; a
  warning is logged for a name exactly when a file of that name has no such extension,
  and no error is logged. The extension is what follows the last dot of the name when
  something precedes that dot, so that a file named \<open>.jpg\<close> has none and is skipped.
\<close>

theorem get_input_images_sorted_valid:
  "get_input_images input_dir Missing = (Inr [], [(ERROR, Input_dir_missing input_dir)]) \<and>
   (\<exists>images records.
      get_input_images input_dir (Dir entries) = (Inr images, records) \<and>
      sorted (map name images) \<and>
      mset images
        = mset (map (\<lambda>entry. Path input_dir (fst entry))
                  (filter (\<lambda>entry. snd entry \<and> spec_supported (fst entry)) entries)) \<and>
      (\<forall>entry \<in> set entries.
         snd entry \<and> \<not> spec_supported (fst entry) \<longrightarrow>
         (WARNING, File_ignored (fst entry)) \<in> set records) \<and>
      (\<forall>file_name. (WARNING, File_ignored file_name) \<in> set records \<longrightarrow>
         (file_name, True) \<in> set entries \<and> \<not> spec_supported file_name) \<and>
      (\<forall>msg. (ERROR, msg) \<notin> set records))"
proof -
  let ?kept = "filter (\<lambda>entry. snd entry \<and> spec_supported (fst entry)) entries"
  let ?images = "sort_key name (map (\<lambda>e. Path input_dir (fst e)) ?kept)"
  let ?records = "concat (map (entry_log input_dir) entries)
                    @ [(INFO, Valid_images_count (length ?kept))]"
  have missing:
    "get_input_images input_dir Missing = (Inr [], [(ERROR, Input_dir_missing input_dir)])"
    by (simp add: get_input_images_def)
  have run: "get_input_images input_dir (Dir entries) = (Inr ?images, ?records)"
    unfolding valid_entries_spec[of input_dir entries, symmetric]
    by (rule get_input_images_Dir)
  have srt: "sorted (map name ?images)"
    by (rule sorted_sort_key)
  have kept: "mset ?images = mset (map (\<lambda>entry. Path input_dir (fst entry)) ?kept)"
    by simp
  have warn: "(WARNING, File_ignored file_name) \<in> set ?records
                \<longleftrightarrow> (file_name, True) \<in> set entries \<and> \<not> spec_supported file_name"
    for file_name
    using warnings_spec[of file_name input_dir entries] by simp
  have skipped: "\<forall>entry \<in> set entries.
         snd entry \<and> \<not> spec_supported (fst entry) \<longrightarrow>
         (WARNING, File_ignored (fst entry)) \<in> set ?records"
  proof (intro ballI impI)
    fix entry
    assume mem: "entry \<in> set entries" and isf: "snd entry \<and> \<not> spec_supported (fst entry)"
    have "(fst entry, True) = entry" using isf by (simp add: prod_eq_iff)
    then have "(fst entry, True) \<in> set entries" using mem by simp
    then have "(fst entry, True) \<in> set entries \<and> \<not> spec_supported (fst entry)"
      using isf by simp
    then show "(WARNING, File_ignored (fst entry)) \<in> set ?records"
      using warn[of "fst entry"] by blast
  qed
  have only: "\<forall>file_name. (WARNING, File_ignored file_name) \<in> set ?records \<longrightarrow>
         (file_name, True) \<in> set entries \<and> \<not> spec_supported file_name"
    using warn by blast
  have noerr: "\<forall>msg. (ERROR, msg) \<notin> set ?records"
    using entry_log_levels by fastforce
  from missing run srt kept skipped only noerr show ?thesis
    by blast
qed

theorem get_input_images_sorted_valid_witness:
  "get_input_images ''input'' Missing = (Inr [], [(ERROR, Input_dir_missing ''input'')]) \<and>
   (\<exists>images records.
      get_input_images ''input'' (Dir example_entries) = (Inr images, records) \<and>
      sorted (map name images) \<and>
      mset images
        = mset (map (\<lambda>entry. Path ''input'' (fst entry))
                  (filter (\<lambda>entry. snd entry \<and> spec_supported (fst entry)) example_entries)) \<and>
      (\<forall>entry \<in> set example_entries.
         snd entry \<and> \<not> spec_supported (fst entry) \<longrightarrow>
         (WARNING, File_ignored (fst entry)) \<in> set records) \<and>
      (\<forall>file_name. (WARNING, File_ignored file_name) \<in> set records \<longrightarrow>
         (file_name, True) \<in> set example_entries \<and> \<not> spec_supported file_name) \<and>
      (\<forall>msg. (ERROR, msg) \<notin> set records))"
  by (rule get_input_images_sorted_valid)

text \<open>
  Claim C10. For a path with no file \<open>get_file_size_mb\<close> returns 0, so that with a
  ceiling that is not negative \<open>_process_single_image\<close> takes the branch that copies:
  nothing is encoded and nothing is written, and the copy raises \<open>FileNotFoundError\<close>.
\<close>

theorem missing_file_takes_copy_branch:
  assumes "files s image_path = None" and "0 \<le> max_mb"
  shows "get_file_size_mb (files s) image_path = 0 \<and>
         process_single_image cdc max_mb compression_quality processed_dir image_path s
           = copy_unchanged image_path (Path processed_dir (name image_path))
               (log_record DEBUG (Initial_size 0) s) \<and>
         saved (snd (process_single_image cdc max_mb compression_quality processed_dir image_path s))
           = saved s \<and>
         files (snd (process_single_image cdc max_mb compression_quality processed_dir image_path s))
           = files s \<and>
         fst (process_single_image cdc max_mb compression_quality processed_dir image_path s)
           = Inl FileNotFoundError"
proof -
  have z: "get_file_size_mb (files s) image_path = 0"
    using assms(1) by (simp add: get_file_size_mb_def)
  have eq: "process_single_image cdc max_mb compression_quality processed_dir image_path s
           = copy_unchanged image_path (Path processed_dir (name image_path))
               (log_record DEBUG (Initial_size 0) s)"
    using assms(2) by (simp add: process_single_image_def Let_def z)
  have cu: "copy_unchanged image_path (Path processed_dir (name image_path))
               (log_record DEBUG (Initial_size 0) s)
            = (Inl FileNotFoundError, log_record DEBUG (Initial_size 0) s)"
    using assms(1) by (simp add: copy_unchanged_def copy2_def)
  show ?thesis unfolding eq by (simp add: z cu)
qed

theorem missing_file_takes_copy_branch_witness:
  "get_file_size_mb (files example_io) (Path ''input'' ''missing.jpg'') = 0 \<and>
   process_single_image example_codec (18 / 10) 85 ''processed'' (Path ''input'' ''missing.jpg'') example_io
     = copy_unchanged (Path ''input'' ''missing.jpg'')
         (Path ''processed'' (name (Path ''input'' ''missing.jpg'')))
         (log_record DEBUG (Initial_size 0) example_io) \<and>
   saved (snd (process_single_image example_codec (18 / 10) 85 ''processed''
                 (Path ''input'' ''missing.jpg'') example_io)) = saved example_io \<and>
   files (snd (process_single_image example_codec (18 / 10) 85 ''processed''
                 (Path ''input'' ''missing.jpg'') example_io)) = files example_io \<and>
   fst (process_single_image example_codec (18 / 10) 85 ''processed''
          (Path ''input'' ''missing.jpg'') example_io)
     = Inl FileNotFoundError"
proof -
  have h1: "files example_io (Path ''input'' ''missing.jpg'') = None"
    by (simp add: example_io_def)
  have h2: "(0::rat) \<le> 18 / 10" by simp
  show ?thesis by (rule missing_file_takes_copy_branch[OF h1 h2])
qed

text \<open>
  Claim C7. An image whose size is at or under the ceiling, and which does not already
  lie in the directory of the processed images, is copied there: the call returns the
  path of the copy, the copy has the bytes of the image, and \<open>img.save\<close> is not called.
\<close>

theorem small_image_copied_unchanged:
  assumes "files s image_path = Some content"
    and "get_file_size_mb (files s) image_path \<le> max_mb"
    and "parent image_path \<noteq> processed_dir"
  shows "\<exists>s'. process_single_image cdc max_mb compression_quality processed_dir image_path s
                 = (Inr (Path processed_dir (name image_path)), s') \<and>
              files s' = (files s)(Path processed_dir (name image_path) \<mapsto> content) \<and>
              files s' (Path processed_dir (name image_path)) = files s image_path \<and>
              saved s' = saved s"
proof -
  have ne: "image_path \<noteq> Path processed_dir (name image_path)"
    using assms(3) by (cases image_path) auto
  show ?thesis using assms(1,2) ne
    by (simp add: process_single_image_def Let_def copy_unchanged_def copy2_def)
qed

theorem small_image_copied_unchanged_witness:
  "\<exists>s'. process_single_image example_codec (18 / 10) 85 ''processed'' (Path ''input'' ''a.jpg'') example_io
           = (Inr (Path ''processed'' (name (Path ''input'' ''a.jpg''))), s') \<and>
        files s' = (files example_io)(Path ''processed'' (name (Path ''input'' ''a.jpg''))
                                        \<mapsto> replicate 100 (CHR ''y'')) \<and>
        files s' (Path ''processed'' (name (Path ''input'' ''a.jpg'')))
          = files example_io (Path ''input'' ''a.jpg'') \<and>
        saved s' = saved example_io"
proof -
  have h1: "files example_io (Path ''input'' ''a.jpg'') = Some (replicate 100 (CHR ''y''))"
    by (simp add: example_io_def)
  have h2: "get_file_size_mb (files example_io) (Path ''input'' ''a.jpg'') \<le> 18 / 10"
    by (simp add: get_file_size_mb_def h1)
  have h3: "parent (Path ''input'' ''a.jpg'') \<noteq> ''processed''" by simp
  show ?thesis by (rule small_image_copied_unchanged[OF h1 h2 h3])
qed

text \<open>
  Claim C6. When the image can be opened and the codec does not raise,
  \<open>_compress_image\<close> (which \<open>_process_single_image\<close> calls for an image above the
  ceiling) returns the output path after at least one and at most five calls of
  \<open>img.save\<close>. The first is at the configured quality, each further one at the
  quality of the one before lowered by 15 but not below 20 (so that no attempt is below
  20 when the configured quality is not); every attempt but the last
  was over the ceiling; the output file holds the last encoding; and either the last
  encoding is within the ceiling, or all five attempts were made and a warning is
  logged.
\<close>

theorem compress_image_attempts:
  assumes "files s input_path = Some content"
    and "prepare cdc content = Inr img"
    and "\<forall>quality. \<exists>encoded. save cdc img quality = Inr encoded"
  shows "\<exists>s' qs encoded.
           compress_image cdc max_mb compression_quality input_path output_path s
             = (Inr output_path, s') \<and>
           saved s' = saved s @ qs \<and> qs \<noteq> [] \<and> length qs \<le> 5 \<and>
           hd qs = compression_quality \<and> quality_steps qs \<and>
           (\<forall>x\<in>set (tl qs). 20 \<le> x) \<and>
           (20 \<le> compression_quality \<longrightarrow> (\<forall>x\<in>set qs. 20 \<le> x)) \<and>
           (\<forall>x\<in>set (butlast qs). \<not> fits cdc max_mb img x) \<and>
           save cdc img (last qs) = Inr encoded \<and>
           files s' = (files s)(output_path \<mapsto> encoded) \<and>
           (if fits cdc max_mb img (last qs)
            then logged s' = logged s @ [(DEBUG, Compression_succeeded (last qs))]
            else length qs = 5 \<and>
                 logged s' = logged s @ [(WARNING, Cannot_reduce (name input_path))])"
proof -
  have lt: "(0::nat) < 5" by simp
  from compress_loop_run[OF assms(3) lt, of max_mb input_path output_path compression_quality s]
  obtain s' qs encoded where
    run: "compress_loop cdc max_mb img input_path output_path 0 compression_quality s = (Inr (), s')"
    and rest: "saved s' = saved s @ qs \<and> qs \<noteq> [] \<and> length qs \<le> 5 - 0 \<and>
           hd qs = compression_quality \<and> quality_steps qs \<and>
           (\<forall>x\<in>set (butlast qs). \<not> fits cdc max_mb img x) \<and>
           (\<forall>x\<in>set (tl qs). 20 \<le> x) \<and>
           save cdc img (last qs) = Inr encoded \<and>
           files s' = (files s)(output_path \<mapsto> encoded) \<and>
           (if fits cdc max_mb img (last qs)
            then logged s' = logged s @ [(DEBUG, Compression_succeeded (last qs))]
            else length qs = 5 - 0 \<and>
                 logged s' = logged s @ [(WARNING, Cannot_reduce (name input_path))])"
    by blast
  have "compress_image cdc max_mb compression_quality input_path output_path s = (Inr output_path, s')"
    using assms(1,2) run by (simp add: compress_image_def)
  moreover have "20 \<le> compression_quality \<longrightarrow> (\<forall>x\<in>set qs. 20 \<le> x)"
    using rest by (cases qs) auto
  ultimately show ?thesis using rest
    by (intro exI[of _ s'] exI[of _ qs] exI[of _ encoded]) simp
qed

theorem compress_image_attempts_witness:
  "\<exists>s' qs encoded.
     compress_image example_codec (10 / (1024 * 1024)) 85 (Path ''input'' ''a.jpg'')
         (Path ''processed'' ''a.jpg'') example_io
       = (Inr (Path ''processed'' ''a.jpg''), s') \<and>
     saved s' = saved example_io @ qs \<and> qs \<noteq> [] \<and> length qs \<le> 5 \<and>
     hd qs = 85 \<and> quality_steps qs \<and>
     (\<forall>x\<in>set (tl qs). 20 \<le> x) \<and>
     (20 \<le> (85::int) \<longrightarrow> (\<forall>x\<in>set qs. 20 \<le> x)) \<and>
     (\<forall>x\<in>set (butlast qs). \<not> fits example_codec (10 / (1024 * 1024)) (replicate 100 (CHR ''y'')) x) \<and>
     save example_codec (replicate 100 (CHR ''y'')) (last qs) = Inr encoded \<and>
     files s' = (files example_io)(Path ''processed'' ''a.jpg'' \<mapsto> encoded) \<and>
     (if fits example_codec (10 / (1024 * 1024)) (replicate 100 (CHR ''y'')) (last qs)
      then logged s' = logged example_io @ [(DEBUG, Compression_succeeded (last qs))]
      else length qs = 5 \<and>
           logged s' = logged example_io @ [(WARNING, Cannot_reduce (name (Path ''input'' ''a.jpg'')))])"
proof -
  have h1: "files example_io (Path ''input'' ''a.jpg'') = Some (replicate 100 (CHR ''y''))"
    by (simp add: example_io_def)
  have h2: "prepare example_codec (replicate 100 (CHR ''y'')) = Inr (replicate 100 (CHR ''y''))"
    by (simp add: example_codec_def)
  have h3: "\<forall>quality. \<exists>encoded. save example_codec (replicate 100 (CHR ''y'')) quality = Inr encoded"
    by (simp add: example_codec_def)
  show ?thesis by (rule compress_image_attempts[OF h1 h2 h3])
qed


end
